theory Spec2Isabelle
  imports Main "HOL-Library.Extended_Nat" "HOL-Library.Sublist"
begin

section \<open>Automaton representation (nfa.ts)\<close>

text \<open>
  A predicate is a total function on elements; the states are parametric in the type of the
  predicates they carry, so that the section on predicates with side effects can reuse them
  for predicates that thread captured state.  States live in a heap (a list of states);
  a reference to a state is its index in the heap, which is also the identity used by the
  sets of the engine.  The total length handed to an anchor guard is an extended natural
  number, because the scanner passes \<open>Infinity\<close> while the length is unknown.
\<close>

type_synonym 'a Predicate = "'a \<Rightarrow> bool"

record 'p Transition =
  predicate :: 'p
  target :: nat

record 'p NFAState =
  state_id :: nat
  epsilons :: "nat list"
  transitions :: "'p Transition list"
  anchorCheck :: "(nat \<Rightarrow> enat \<Rightarrow> bool) option"

type_synonym 'p heap = "'p NFAState list"

record NFA =
  start :: nat
  accept :: nat

text \<open>
  Dereferencing: every reference the compiler creates is inside the heap; a reference
  outside of it denotes a state without edges and without guard.
\<close>

definition deref :: "'a heap \<Rightarrow> nat \<Rightarrow> 'a NFAState" where
  "deref H r = (if r < length H then H ! r
                else \<lparr>state_id = r, epsilons = [], transitions = [], anchorCheck = None\<rparr>)"

section \<open>Pattern tree (ast.ts)\<close>

datatype position = AtStart | AtEnd

text \<open>\<open>max\<close> is a number that may be \<open>Infinity\<close>, hence an extended natural number.\<close>

datatype 'p PatternNode =
    PredicateNode 'p
  | SequenceNode "'p PatternNode list"
  | QuantifierNode "'p PatternNode" nat enat bool
  | AlternationNode "'p PatternNode" "'p PatternNode"
  | AnchorNode position
  | AnyNode

fun isGreedy :: "'a PatternNode \<Rightarrow> bool" where
  "isGreedy (PredicateNode fn) = True"
| "isGreedy (AnchorNode pos) = True"
| "isGreedy AnyNode = True"
| "isGreedy (SequenceNode children) = list_all isGreedy children"
| "isGreedy (QuantifierNode child mn mx greedy) = (greedy \<and> isGreedy child)"
| "isGreedy (AlternationNode left right) = (isGreedy left \<and> isGreedy right)"

section \<open>Pattern builder (pattern.ts)\<close>

text \<open>
  \<open>Pattern.oneOf\<close> takes predicates and patterns (a pattern is the tree it wraps) and
  throws when it is given none; the exception is the left summand of the result.
\<close>

datatype error = Error string

datatype 'a alternative = AltPredicate "'a Predicate" | AltPattern "'a Predicate PatternNode"

definition toNode :: "'a alternative \<Rightarrow> 'a Predicate PatternNode" where
  "toNode alt = (case alt of AltPattern ast \<Rightarrow> ast | AltPredicate fn \<Rightarrow> PredicateNode fn)"

definition oneOf :: "'a alternative list \<Rightarrow> error + 'a Predicate PatternNode" where
  "oneOf alternatives =
     (if length alternatives = 0
      then Inl (Error ''Pattern.oneOf() requires at least one alternative'')
      else Inr (foldl (\<lambda>node alt. AlternationNode node (toNode alt))
                  (toNode (alternatives ! 0)) (drop 1 alternatives)))"

section \<open>Compiler (nfa.ts)\<close>

text \<open>
  The compiler allocates states and appends to their edge lists.  Here it is a state
  transformer on the heap: a compiler takes the heap and returns the fragment
  \<open>{start, accept}\<close> together with the new heap.  \<open>nextId\<close> is the number of states
  created so far, that is the length of the heap.
\<close>

type_synonym 'a compiler = "'a heap \<Rightarrow> NFA \<times> 'a heap"

definition createState :: "'a heap \<Rightarrow> nat \<times> 'a heap" where
  "createState H =
     (length H, H @ [\<lparr>state_id = length H, epsilons = [], transitions = [], anchorCheck = None\<rparr>])"

text \<open>\<open>s.epsilons.push(...ts)\<close>, \<open>s.transitions.push(tr)\<close> and \<open>s.anchorCheck = chk\<close>.\<close>

definition pushEpsilons :: "nat \<Rightarrow> nat list \<Rightarrow> 'a heap \<Rightarrow> 'a heap" where
  "pushEpsilons s ts H = H[s := (H ! s)\<lparr>epsilons := epsilons (H ! s) @ ts\<rparr>]"

definition pushTransition :: "nat \<Rightarrow> 'a Transition \<Rightarrow> 'a heap \<Rightarrow> 'a heap" where
  "pushTransition s tr H = H[s := (H ! s)\<lparr>transitions := transitions (H ! s) @ [tr]\<rparr>]"

definition setAnchorCheck :: "nat \<Rightarrow> (nat \<Rightarrow> enat \<Rightarrow> bool) \<Rightarrow> 'a heap \<Rightarrow> 'a heap" where
  "setAnchorCheck s chk H = H[s := (H ! s)\<lparr>anchorCheck := Some chk\<rparr>]"

definition compilePredicate :: "'p \<Rightarrow> 'p compiler" where
  "compilePredicate fn H =
     (let (st, H1) = createState H;
          (ac, H2) = createState H1;
          H3 = pushTransition st \<lparr>predicate = fn, target = ac\<rparr> H2
      in (\<lparr>start = st, accept = ac\<rparr>, H3))"

text \<open>\<open>children.map(child => compileNode(child))\<close>: the children are compiled left to right.\<close>

fun compileAll :: "'a compiler list \<Rightarrow> 'a heap \<Rightarrow> NFA list \<times> 'a heap" where
  "compileAll [] H = ([], H)"
| "compileAll (child # children) H =
     (let (fragment, H1) = child H;
          (fragments, H2) = compileAll children H1
      in (fragment # fragments, H2))"

text \<open>\<open>fragments[i].accept.epsilons.push(fragments[i + 1].start)\<close> for every adjacent pair.\<close>

fun linkFragments :: "NFA list \<Rightarrow> 'a heap \<Rightarrow> 'a heap" where
  "linkFragments (f # g # fragments) H =
     linkFragments (g # fragments) (pushEpsilons (accept f) [start g] H)"
| "linkFragments fragments H = H"

definition compileSequence :: "'a compiler list \<Rightarrow> 'a compiler" where
  "compileSequence children H =
     (case children of
        [] \<Rightarrow>
          (let (st, H1) = createState H;
               (ac, H2) = createState H1;
               H3 = pushEpsilons st [ac] H2
           in (\<lparr>start = st, accept = ac\<rparr>, H3))
      | [child] \<Rightarrow> child H
      | _ \<Rightarrow>
          (let (fragments, H1) = compileAll children H;
               H2 = linkFragments fragments H1
           in (\<lparr>start = start (hd fragments), accept = accept (last fragments)\<rparr>, H2)))"

text \<open>The first loop of \<open>compileQuantifier\<close>: \<open>min\<close> mandatory copies in a chain.\<close>

fun mandatoryCopies :: "'a compiler \<Rightarrow> nat \<Rightarrow> nat \<Rightarrow> 'a heap \<Rightarrow> nat \<times> 'a heap" where
  "mandatoryCopies child 0 lastState H = (lastState, H)"
| "mandatoryCopies child (Suc k) lastState H =
     (let (fragment, H1) = child H;
          H2 = pushEpsilons lastState [start fragment] H1
      in mandatoryCopies child k (accept fragment) H2)"

text \<open>The loop for a bounded \<open>max\<close>: it runs \<open>max - min\<close> times (not at all if \<open>max \<le> min\<close>).\<close>

fun optionalCopies ::
  "'a compiler \<Rightarrow> nat \<Rightarrow> bool \<Rightarrow> nat \<Rightarrow> nat \<Rightarrow> 'a heap \<Rightarrow> nat \<times> 'a heap" where
  "optionalCopies child 0 greedy ac lastState H = (lastState, H)"
| "optionalCopies child (Suc k) greedy ac lastState H =
     (let (fragment, H1) = child H;
          H2 = pushEpsilons lastState
                 (if greedy then [start fragment, ac] else [ac, start fragment]) H1
      in optionalCopies child k greedy ac (accept fragment) H2)"

definition compileQuantifier :: "'a compiler \<Rightarrow> nat \<Rightarrow> enat \<Rightarrow> bool \<Rightarrow> 'a compiler" where
  "compileQuantifier child mn mx greedy H =
     (let (st, H1) = createState H;
          (ac, H2) = createState H1;
          (lastState, H3) = mandatoryCopies child mn st H2
      in case mx of
           \<infinity> \<Rightarrow>
             (let (loopFragment, H4) = child H3;
                  H5 = pushEpsilons lastState
                         (if greedy then [start loopFragment, ac] else [ac, start loopFragment]) H4;
                  H6 = pushEpsilons (accept loopFragment) [lastState] H5
              in (\<lparr>start = st, accept = ac\<rparr>, H6))
         | enat m \<Rightarrow>
             (let (lastState1, H4) = optionalCopies child (m - mn) greedy ac lastState H3;
                  H5 = pushEpsilons lastState1 [ac] H4
              in (\<lparr>start = st, accept = ac\<rparr>, H5)))"

definition compileAlternation :: "'a compiler \<Rightarrow> 'a compiler \<Rightarrow> 'a compiler" where
  "compileAlternation left right H =
     (let (st, H1) = createState H;
          (ac, H2) = createState H1;
          (leftNFA, H3) = left H2;
          (rightNFA, H4) = right H3;
          H5 = pushEpsilons st [start leftNFA, start rightNFA] H4;
          H6 = pushEpsilons (accept leftNFA) [ac] H5;
          H7 = pushEpsilons (accept rightNFA) [ac] H6
      in (\<lparr>start = st, accept = ac\<rparr>, H7))"

definition startAnchorCheck :: "nat \<Rightarrow> enat \<Rightarrow> bool" where
  "startAnchorCheck index len = (index = 0)"

definition endAnchorCheck :: "nat \<Rightarrow> enat \<Rightarrow> bool" where
  "endAnchorCheck index len = (enat index = len)"

definition compileAnchor :: "position \<Rightarrow> 'a compiler" where
  "compileAnchor pos H =
     (let (st, H1) = createState H;
          (ac, H2) = createState H1;
          H3 = setAnchorCheck st (if pos = AtStart then startAnchorCheck else endAnchorCheck) H2;
          H4 = pushEpsilons st [ac] H3
      in (\<lparr>start = st, accept = ac\<rparr>, H4))"

fun compileNode :: "'a Predicate PatternNode \<Rightarrow> 'a Predicate compiler" where
  "compileNode (PredicateNode fn) = compilePredicate fn"
| "compileNode (SequenceNode children) = compileSequence (map compileNode children)"
| "compileNode (QuantifierNode child mn mx greedy) =
     compileQuantifier (compileNode child) mn mx greedy"
| "compileNode (AlternationNode left right) =
     compileAlternation (compileNode left) (compileNode right)"
| "compileNode (AnchorNode pos) = compileAnchor pos"
| "compileNode AnyNode = compilePredicate (\<lambda>element. True)"

definition compile :: "'a Predicate PatternNode \<Rightarrow> NFA \<times> 'a Predicate heap" where
  "compile node = compileNode node []"

section \<open>Epsilon closure (engine.ts)\<close>

text \<open>
  A JavaScript \<open>Set\<close> iterates in insertion order: it is a list without duplicates,
  \<open>has\<close> is membership and \<open>add\<close> appends an element that is not yet present.
\<close>

definition set_add :: "'k list \<Rightarrow> 'k \<Rightarrow> 'k list" where
  "set_add xs x = (if x \<in> set xs then xs else xs @ [x])"

text \<open>\<open>state.anchorCheck && !state.anchorCheck(position, seqLength)\<close>\<close>

definition anchorFails :: "'a heap \<Rightarrow> nat \<Rightarrow> nat \<Rightarrow> enat \<Rightarrow> bool" where
  "anchorFails H state position seqLength =
     (case anchorCheck (deref H state) of
        None \<Rightarrow> False
      | Some chk \<Rightarrow> \<not> chk position seqLength)"

lemma deref_outside: "\<not> r < length H \<Longrightarrow> epsilons (deref H r) = []"
  by (simp add: deref_def)

lemma card_unvisited_less:
  assumes "s < n" "s \<notin> set res"
  shows "card ({..<n} - set (set_add res s)) < card ({..<n::nat} - set res)"
proof -
  have "{..<n} - set (set_add res s) \<subset> {..<n} - set res"
    using assms by (auto simp: set_add_def)
  then show ?thesis by (simp add: psubset_card_mono)
qed

text \<open>
  The \<open>while (stack.length > 0)\<close> loop of \<open>epsilonClosure\<close>.  The stack is the
  JavaScript array: \<open>pop\<close> takes the last element, \<open>push\<close> appends.
\<close>

function epsilonLoop ::
  "'a heap \<Rightarrow> nat \<Rightarrow> enat \<Rightarrow> nat list \<Rightarrow> nat list \<Rightarrow> nat list" where
  "epsilonLoop H position seqLength result stack =
     (if stack = [] then result
      else
        let state = last stack; stack1 = butlast stack in
        if state \<in> set result then epsilonLoop H position seqLength result stack1
        else if anchorFails H state position seqLength
        then epsilonLoop H position seqLength result stack1
        else
          let result1 = set_add result state in
          epsilonLoop H position seqLength result1
            (stack1 @ filter (\<lambda>target. target \<notin> set result1) (epsilons (deref H state))))"
  by pat_completeness auto

termination epsilonLoop
proof (relation "measures [\<lambda>(H, p, n, res, st). card ({..<length H} - set res),
                           \<lambda>(H, p, n, res, st). length st]", goal_cases)
  case 1
  then show ?case by simp
next
  case (2 H position seqLength result stack state stack1)
  then show ?case by (cases stack rule: rev_cases) auto
next
  case (3 H position seqLength result stack state stack1)
  then show ?case by (cases stack rule: rev_cases) auto
next
  case (4 H position seqLength result stack state stack1 result1)
  show ?case
  proof (cases "state < length H")
    case True
    with 4 show ?thesis using card_unvisited_less [of state "length H" result] by simp
  next
    case False
    with 4 have "epsilons (deref H state) = []" by (simp add: deref_outside)
    moreover have "card ({..<length H} - set result1) \<le> card ({..<length H} - set result)"
      using 4 by (intro card_mono) (auto simp: set_add_def)
    ultimately show ?thesis using 4 by (cases stack rule: rev_cases) auto
  qed
qed

declare epsilonLoop.simps [simp del]

definition epsilonClosure :: "'a heap \<Rightarrow> nat list \<Rightarrow> nat \<Rightarrow> enat \<Rightarrow> nat list" where
  "epsilonClosure H states position seqLength = epsilonLoop H position seqLength [] states"

text \<open>
  The same loop with nothing said about its termination: a run that does not return has the
  value \<open>None\<close>.
\<close>

partial_function (option) epsilonWhile ::
  "'a heap \<Rightarrow> nat \<Rightarrow> enat \<Rightarrow> nat list \<Rightarrow> nat list \<Rightarrow> nat list option" where
  "epsilonWhile H position seqLength result stack =
     (if stack = [] then Some result
      else
        let state = last stack; stack1 = butlast stack in
        if state \<in> set result then epsilonWhile H position seqLength result stack1
        else if anchorFails H state position seqLength
        then epsilonWhile H position seqLength result stack1
        else
          let result1 = set_add result state in
          epsilonWhile H position seqLength result1
            (stack1 @ filter (\<lambda>target. target \<notin> set result1) (epsilons (deref H state))))"

text \<open>
  States reachable from the seeds along epsilon edges, every state on the way (the seed and
  the final state included) passing its anchor guard.
\<close>

inductive_set reachable :: "'a heap \<Rightarrow> nat \<Rightarrow> enat \<Rightarrow> nat set \<Rightarrow> nat set"
  for H :: "'a heap" and position :: nat and seqLength :: enat and S :: "nat set" where
  seed: "s \<in> S \<Longrightarrow> \<not> anchorFails H s position seqLength \<Longrightarrow> s \<in> reachable H position seqLength S"
| step: "s \<in> reachable H position seqLength S \<Longrightarrow> t \<in> set (epsilons (deref H s)) \<Longrightarrow>
         \<not> anchorFails H t position seqLength \<Longrightarrow> t \<in> reachable H position seqLength S"

text \<open>An epsilon path: a non-empty list of states, each the epsilon target of the one before.\<close>

fun epsilonPath :: "'a heap \<Rightarrow> nat list \<Rightarrow> bool" where
  "epsilonPath H [] = False"
| "epsilonPath H [s] = True"
| "epsilonPath H (s # t # rest) = (t \<in> set (epsilons (deref H s)) \<and> epsilonPath H (t # rest))"

section \<open>Batch engine (engine.ts)\<close>

record 'a MatchResult =
  start_idx :: nat
  end_idx :: nat
  data :: "'a list"

record SimResult =
  matched :: bool
  matchLength :: nat

text \<open>\<open>xs.slice(a, b)\<close> for indices that are not negative.\<close>

definition slice :: "'a list \<Rightarrow> nat \<Rightarrow> nat \<Rightarrow> 'a list" where
  "slice xs a b = take (b - a) (drop a xs)"

text \<open>
  The set \<open>next\<close> of one simulation step: the targets of the transitions of the active
  states whose predicate accepts the element, added in iteration order.  Predicates are
  functions of the element alone here; the engine for predicates that mutate captured
  state is \<open>nextStatesS\<close> and \<open>simulateS\<close> below, and \<open>simulateS_quiet\<close> shows that the two
  agree when no predicate changes that state.
\<close>

definition nextStates :: "'a Predicate heap \<Rightarrow> nat list \<Rightarrow> 'a \<Rightarrow> nat list" where
  "nextStates H active element =
     foldl (\<lambda>next state.
              foldl (\<lambda>next transition.
                       if predicate transition element then set_add next (target transition)
                       else next)
                next (transitions (deref H state)))
       [] active"

text \<open>
  The \<open>for\<close> loop of \<open>simulate\<close>; it returns \<open>lastAcceptLength\<close>, which is \<open>-1\<close>
  as long as no candidate was recorded.
\<close>

function simulateLoop ::
  "'a Predicate heap \<Rightarrow> NFA \<Rightarrow> 'a list \<Rightarrow> nat \<Rightarrow> bool \<Rightarrow> nat \<Rightarrow> nat list \<Rightarrow> int \<Rightarrow> int" where
  "simulateLoop H nfa sequence offset greedy i active lastAcceptLength =
     (if i < length sequence then
        let element = sequence ! i;
            next = nextStates H active element;
            active1 = epsilonClosure H next (i + 1) (enat (length sequence)) in
        if active1 = [] then lastAcceptLength
        else if accept nfa \<in> set active1 then
          let lastAcceptLength1 = int i - int offset + 1 in
          if \<not> greedy then lastAcceptLength1
          else simulateLoop H nfa sequence offset greedy (i + 1) active1 lastAcceptLength1
        else simulateLoop H nfa sequence offset greedy (i + 1) active1 lastAcceptLength
      else lastAcceptLength)"
  by pat_completeness auto
termination simulateLoop
  by (relation "measure (\<lambda>(H, nfa, sequence, offset, greedy, i, active, l). length sequence - i)")
     auto

declare simulateLoop.simps [simp del]

definition simulate :: "'a Predicate heap \<Rightarrow> NFA \<Rightarrow> 'a list \<Rightarrow> nat \<Rightarrow> bool \<Rightarrow> SimResult" where
  "simulate H nfa sequence offset greedy =
     (let active = epsilonClosure H [start nfa] offset (enat (length sequence));
          lastAcceptLength = (if accept nfa \<in> set active then 0 else - 1 :: int) in
      if \<not> greedy \<and> lastAcceptLength \<ge> 0 then \<lparr>matched = True, matchLength = 0\<rparr>
      else
        let lastAcceptLength1 =
              simulateLoop H nfa sequence offset greedy offset active lastAcceptLength in
        \<lparr>matched = (lastAcceptLength1 \<ge> 0), matchLength = nat (max lastAcceptLength1 0)\<rparr>)"

function findAllLoop ::
  "'a Predicate heap \<Rightarrow> NFA \<Rightarrow> 'a list \<Rightarrow> bool \<Rightarrow> nat \<Rightarrow> 'a MatchResult list \<Rightarrow> 'a MatchResult list" where
  "findAllLoop H nfa sequence greedy pos results =
     (if pos < length sequence then
        let result = simulate H nfa sequence pos greedy in
        if matched result \<and> matchLength result > 0 then
          findAllLoop H nfa sequence greedy (pos + matchLength result)
            (results @ [\<lparr>start_idx = pos, end_idx = pos + matchLength result - 1,
                         data = slice sequence pos (pos + matchLength result)\<rparr>])
        else findAllLoop H nfa sequence greedy (pos + 1) results
      else results)"
  by pat_completeness auto
termination findAllLoop
  by (relation "measure (\<lambda>(H, nfa, sequence, greedy, pos, results). length sequence - pos)")
     auto

declare findAllLoop.simps [simp del]

definition findAll :: "'a Predicate heap \<Rightarrow> NFA \<Rightarrow> 'a list \<Rightarrow> bool \<Rightarrow> 'a MatchResult list" where
  "findAll H nfa sequence greedy = findAllLoop H nfa sequence greedy 0 []"

text \<open>\<open>findFirst\<close> returns \<open>null\<close> (here \<open>None\<close>) when the scan finds nothing.\<close>

function findFirstLoop ::
  "'a Predicate heap \<Rightarrow> NFA \<Rightarrow> 'a list \<Rightarrow> bool \<Rightarrow> nat \<Rightarrow> 'a MatchResult option" where
  "findFirstLoop H nfa sequence greedy pos =
     (if pos < length sequence then
        let result = simulate H nfa sequence pos greedy in
        if matched result \<and> matchLength result > 0 then
          Some \<lparr>start_idx = pos, end_idx = pos + matchLength result - 1,
                data = slice sequence pos (pos + matchLength result)\<rparr>
        else findFirstLoop H nfa sequence greedy (pos + 1)
      else None)"
  by pat_completeness auto
termination findFirstLoop
  by (relation "measure (\<lambda>(H, nfa, sequence, greedy, pos). length sequence - pos)") auto

declare findFirstLoop.simps [simp del]

definition findFirst :: "'a Predicate heap \<Rightarrow> NFA \<Rightarrow> 'a list \<Rightarrow> bool \<Rightarrow> 'a MatchResult option" where
  "findFirst H nfa sequence greedy = findFirstLoop H nfa sequence greedy 0"

definition test :: "'a Predicate heap \<Rightarrow> NFA \<Rightarrow> 'a list \<Rightarrow> bool \<Rightarrow> bool" where
  "test H nfa sequence greedy = (findFirst H nfa sequence greedy \<noteq> None)"

text \<open>
  The active set of a simulation from \<open>offset\<close> after \<open>k\<close> elements, and what it means
  that a candidate of length \<open>k\<close> exists there: the accept state is active after \<open>k\<close>
  elements, all of them inside the sequence.
\<close>

fun activeAt :: "'a Predicate heap \<Rightarrow> NFA \<Rightarrow> 'a list \<Rightarrow> nat \<Rightarrow> nat \<Rightarrow> nat list" where
  "activeAt H nfa sequence offset 0 =
     epsilonClosure H [start nfa] offset (enat (length sequence))"
| "activeAt H nfa sequence offset (Suc k) =
     epsilonClosure H (nextStates H (activeAt H nfa sequence offset k) (sequence ! (offset + k)))
       (offset + k + 1) (enat (length sequence))"

declare activeAt.simps [simp del]

definition candidate :: "'a Predicate heap \<Rightarrow> NFA \<Rightarrow> 'a list \<Rightarrow> nat \<Rightarrow> nat \<Rightarrow> bool" where
  "candidate H nfa sequence offset k \<longleftrightarrow>
     (k = 0 \<or> offset + k \<le> length sequence) \<and>
     accept nfa \<in> set (activeAt H nfa sequence offset k)"

text \<open>The loop of \<open>simulate\<close> resumed after \<open>j\<close> elements.\<close>

definition simulateFrom :: "'a Predicate heap \<Rightarrow> NFA \<Rightarrow> 'a list \<Rightarrow> nat \<Rightarrow> bool \<Rightarrow> nat \<Rightarrow> int \<Rightarrow> int" where
  "simulateFrom H nfa sq off greedy j l0 =
     simulateLoop H nfa sq off greedy (off + j) (activeAt H nfa sq off j) l0"

text \<open>
  A scan attempt at \<open>pos\<close> that yields a match of positive length, and the
  \<open>MatchResult\<close> that \<open>findAll\<close> and \<open>findFirst\<close> build from it.
\<close>

definition positiveAt :: "'a Predicate heap \<Rightarrow> NFA \<Rightarrow> 'a list \<Rightarrow> bool \<Rightarrow> nat \<Rightarrow> bool" where
  "positiveAt H nfa sq greedy pos \<longleftrightarrow>
     matched (simulate H nfa sq pos greedy) \<and> 0 < matchLength (simulate H nfa sq pos greedy)"

definition matchAt :: "'a Predicate heap \<Rightarrow> NFA \<Rightarrow> 'a list \<Rightarrow> bool \<Rightarrow> nat \<Rightarrow> 'a MatchResult" where
  "matchAt H nfa sq greedy pos =
     \<lparr>start_idx = pos, end_idx = pos + matchLength (simulate H nfa sq pos greedy) - 1,
      data = slice sq pos (pos + matchLength (simulate H nfa sq pos greedy))\<rparr>"

section \<open>Automata that differ in the order of epsilon edges\<close>

text \<open>
  Two states correspond when they agree in everything but the order of their epsilon edges;
  two heaps correspond state by state; two compilers correspond when they map corresponding
  heaps to the same fragment and corresponding heaps.  \<open>flipOne t t'\<close> holds when
  \<open>t'\<close> is the tree \<open>t\<close> with the greedy flag of one quantifier, set in \<open>t\<close>,
  cleared.
\<close>

definition stateSim :: "'a NFAState \<Rightarrow> 'a NFAState \<Rightarrow> bool" where
  "stateSim s t \<longleftrightarrow>
     state_id s = state_id t \<and> set (epsilons s) = set (epsilons t) \<and>
     transitions s = transitions t \<and> anchorCheck s = anchorCheck t"

definition heapSim :: "'a heap \<Rightarrow> 'a heap \<Rightarrow> bool" where
  "heapSim H1 H2 \<longleftrightarrow> list_all2 stateSim H1 H2"

definition compSim :: "'a compiler \<Rightarrow> 'a compiler \<Rightarrow> bool" where
  "compSim c1 c2 \<longleftrightarrow>
     (\<forall>H1 H2. heapSim H1 H2 \<longrightarrow>
        fst (c1 H1) = fst (c2 H2) \<and> heapSim (snd (c1 H1)) (snd (c2 H2)))"

inductive flipOne :: "'a PatternNode \<Rightarrow> 'a PatternNode \<Rightarrow> bool" where
  chosen: "flipOne (QuantifierNode child mn mx True) (QuantifierNode child mn mx False)"
| inQuantifier: "flipOne child child' \<Longrightarrow>
     flipOne (QuantifierNode child mn mx greedy) (QuantifierNode child' mn mx greedy)"
| inSequence: "flipOne child child' \<Longrightarrow>
     flipOne (SequenceNode (before @ child # after)) (SequenceNode (before @ child' # after))"
| inLeft: "flipOne left left' \<Longrightarrow>
     flipOne (AlternationNode left right) (AlternationNode left' right)"
| inRight: "flipOne right right' \<Longrightarrow>
     flipOne (AlternationNode left right) (AlternationNode left right')"

section \<open>Properties of the epsilon closure\<close>

lemma epsilonLoop_Nil [simp]: "epsilonLoop H p n res [] = res"
  by (simp add: epsilonLoop.simps)

lemma epsilonLoop_snoc:
  "epsilonLoop H p n res (st @ [s]) =
     (if s \<in> set res \<or> anchorFails H s p n then epsilonLoop H p n res st
      else epsilonLoop H p n (res @ [s])
             (st @ filter (\<lambda>t. t \<notin> set (res @ [s])) (epsilons (deref H s))))"
  by (subst epsilonLoop.simps) (simp add: Let_def set_add_def)

lemma epsilonLoop_snoc2:
  "epsilonLoop H p n res (st1 @ st @ [s]) =
     (if s \<in> set res \<or> anchorFails H s p n then epsilonLoop H p n res (st1 @ st)
      else epsilonLoop H p n (res @ [s])
             (st1 @ st @ filter (\<lambda>t. t \<notin> set (res @ [s])) (epsilons (deref H s))))"
  using epsilonLoop_snoc [of H p n res "st1 @ st" s] by simp

lemma epsilonLoop_induct [case_names Nil skip add]:
  assumes "\<And>res. P res []"
    and "\<And>res st s. s \<in> set res \<or> anchorFails H s p n \<Longrightarrow> P res st \<Longrightarrow> P res (st @ [s])"
    and "\<And>res st s. s \<notin> set res \<Longrightarrow> \<not> anchorFails H s p n \<Longrightarrow>
           P (res @ [s]) (st @ filter (\<lambda>t. t \<notin> set (res @ [s])) (epsilons (deref H s))) \<Longrightarrow>
           P res (st @ [s])"
  shows "P res st"
  using assms
proof (induction H p n res st rule: epsilonLoop.induct)
  case (1 H p n res st)
  note base = 1(4) and skip = 1(5) and add = 1(6)
  show ?case
  proof (cases st rule: rev_cases)
    case Nil
    then show ?thesis using base by simp
  next
    case (snoc ys s)
    show ?thesis
    proof (cases "s \<in> set res")
      case True
      have "P res (butlast st)"
        by (rule 1(1) [OF _ refl refl _ base skip add]) (use snoc True in auto)
      then show ?thesis using skip [of s res ys] True snoc by simp
    next
      case notin: False
      show ?thesis
      proof (cases "anchorFails H s p n")
        case True
        have "P res (butlast st)"
          by (rule 1(2) [OF _ refl refl _ _ base skip add]) (use snoc True notin in auto)
        then show ?thesis using skip [of s res ys] True snoc by simp
      next
        case False
        have "P (set_add res (last st))
                (butlast st @ filter (\<lambda>t. t \<notin> set (set_add res (last st)))
                   (epsilons (deref H (last st))))"
          by (rule 1(3) [OF _ refl refl _ _ refl base skip add]) (use snoc False notin in auto)
        then show ?thesis using add [of s res ys] False notin snoc by (simp add: set_add_def)
      qed
    qed
  qed
qed

lemma epsilonWhile_eq: "epsilonWhile H p n res st = Some (epsilonLoop H p n res st)"
proof (induction res st rule: epsilonLoop_induct [where H = H and p = p and n = n])
  case (Nil res)
  show ?case by (subst epsilonWhile.simps) simp
next
  case (skip res st s)
  then show ?case
    by (subst epsilonWhile.simps) (auto simp: epsilonLoop_snoc Let_def)
next
  case (add res st s)
  then show ?case
    by (subst epsilonWhile.simps) (simp add: epsilonLoop_snoc Let_def set_add_def)
qed

lemma epsilonLoop_distinct: "distinct res \<Longrightarrow> distinct (epsilonLoop H p n res st)"
  by (induction res st rule: epsilonLoop_induct [where H = H and p = p and n = n])
     (auto simp: epsilonLoop_snoc)

lemma epsilonLoop_prefix: "prefix res (epsilonLoop H p n res st)"
proof (induction res st rule: epsilonLoop_induct [where H = H and p = p and n = n])
  case (add res st s)
  then show ?case by (auto simp: epsilonLoop_snoc dest: append_prefixD)
qed (auto simp: epsilonLoop_snoc)

lemma epsilonLoop_mono: "set res \<subseteq> set (epsilonLoop H p n res st)"
  using epsilonLoop_prefix [of res H p n st] by (rule set_mono_prefix)

lemma epsilonLoop_sound:
  assumes closed: "\<And>s t. s \<in> R \<Longrightarrow> t \<in> set (epsilons (deref H s)) \<Longrightarrow>
                     \<not> anchorFails H t p n \<Longrightarrow> t \<in> R"
  shows "set res \<subseteq> R \<Longrightarrow> (\<forall>t\<in>set st. \<not> anchorFails H t p n \<longrightarrow> t \<in> R) \<Longrightarrow>
         set (epsilonLoop H p n res st) \<subseteq> R"
proof (induction res st rule: epsilonLoop_induct [where H = H and p = p and n = n])
  case (Nil res)
  then show ?case by simp
next
  case (skip res st s)
  then show ?case by (auto simp: epsilonLoop_snoc)
next
  case (add res st s)
  have "set (res @ [s]) \<subseteq> R" using add.prems add.hyps by simp
  moreover have "\<forall>t\<in>set (st @ filter (\<lambda>t. t \<notin> set (res @ [s])) (epsilons (deref H s))).
                   \<not> anchorFails H t p n \<longrightarrow> t \<in> R"
    using add.prems add.hyps closed [of s] by auto
  ultimately have "set (epsilonLoop H p n (res @ [s])
      (st @ filter (\<lambda>t. t \<notin> set (res @ [s])) (epsilons (deref H s)))) \<subseteq> R"
    by (rule add.IH)
  then show ?case using add.hyps by (simp add: epsilonLoop_snoc)
qed

definition closedUnder :: "'a heap \<Rightarrow> nat \<Rightarrow> enat \<Rightarrow> nat set \<Rightarrow> nat set \<Rightarrow> bool" where
  "closedUnder H p n X Y \<longleftrightarrow>
     (\<forall>s\<in>X. \<forall>t\<in>set (epsilons (deref H s)). \<not> anchorFails H t p n \<longrightarrow> t \<in> Y)"

lemma epsilonLoop_complete:
  "closedUnder H p n (set res) (set res \<union> set st) \<Longrightarrow>
   closedUnder H p n (set (epsilonLoop H p n res st)) (set (epsilonLoop H p n res st)) \<and>
   (\<forall>t\<in>set st. \<not> anchorFails H t p n \<longrightarrow> t \<in> set (epsilonLoop H p n res st))"
proof (induction res st rule: epsilonLoop_induct [where H = H and p = p and n = n])
  case (Nil res)
  then show ?case by simp
next
  case (skip res st s)
  have "closedUnder H p n (set res) (set res \<union> set st)"
    using skip.prems skip.hyps unfolding closedUnder_def by auto
  from skip.IH [OF this] show ?case
    using skip.hyps epsilonLoop_mono [of res H p n st] by (auto simp: epsilonLoop_snoc)
next
  case (add res st s)
  let ?st = "st @ filter (\<lambda>t. t \<notin> set (res @ [s])) (epsilons (deref H s))"
  have "closedUnder H p n (set (res @ [s])) (set (res @ [s]) \<union> set ?st)"
    using add.prems unfolding closedUnder_def by auto
  from add.IH [OF this] show ?case
    using add.hyps epsilonLoop_mono [of "res @ [s]" H p n ?st] by (auto simp: epsilonLoop_snoc)
qed

lemma reachable_passes: "s \<in> reachable H p n S \<Longrightarrow> \<not> anchorFails H s p n"
  by (induction rule: reachable.induct) auto

lemma epsilonClosure_reachable:
  "set (epsilonClosure H seeds p n) = reachable H p n (set seeds)"
proof
  show "set (epsilonClosure H seeds p n) \<subseteq> reachable H p n (set seeds)"
    unfolding epsilonClosure_def
    by (rule epsilonLoop_sound) (auto intro: reachable.intros)
next
  have "closedUnder H p n (set []) (set [] \<union> set seeds)" by (simp add: closedUnder_def)
  from epsilonLoop_complete [OF this]
  have cl: "closedUnder H p n (set (epsilonClosure H seeds p n)) (set (epsilonClosure H seeds p n))"
    and sd: "\<forall>t\<in>set seeds. \<not> anchorFails H t p n \<longrightarrow> t \<in> set (epsilonClosure H seeds p n)"
    by (simp_all add: epsilonClosure_def)
  show "reachable H p n (set seeds) \<subseteq> set (epsilonClosure H seeds p n)"
  proof
    fix s assume "s \<in> reachable H p n (set seeds)"
    then show "s \<in> set (epsilonClosure H seeds p n)"
    proof (induction rule: reachable.induct)
      case (seed s)
      then show ?case using sd by simp
    next
      case (step s t)
      then show ?case using cl unfolding closedUnder_def by blast
    qed
  qed
qed

lemma epsilonPath_snoc:
  "epsilonPath H path \<Longrightarrow> t \<in> set (epsilons (deref H (last path))) \<Longrightarrow> epsilonPath H (path @ [t])"
  by (induction H path rule: epsilonPath.induct) auto

lemma epsilonPath_nonempty: "epsilonPath H path \<Longrightarrow> path \<noteq> []"
  by auto

lemma reachable_path:
  "s \<in> reachable H p n S \<Longrightarrow>
   \<exists>path. epsilonPath H path \<and> hd path \<in> S \<and> last path = s \<and>
          (\<forall>q\<in>set path. \<not> anchorFails H q p n)"
proof (induction rule: reachable.induct)
  case (seed s)
  then have "epsilonPath H [s] \<and> hd [s] \<in> S \<and> last [s] = s \<and> (\<forall>q\<in>set [s]. \<not> anchorFails H q p n)"
    by simp
  then show ?case by blast
next
  case (step s t)
  then obtain path where path: "epsilonPath H path" "hd path \<in> S" "last path = s"
    "\<forall>q\<in>set path. \<not> anchorFails H q p n" by blast
  then have "epsilonPath H (path @ [t])" using step.hyps by (simp add: epsilonPath_snoc)
  moreover have "hd (path @ [t]) \<in> S" using path epsilonPath_nonempty [OF path(1)] by simp
  moreover have "last (path @ [t]) = t" by simp
  moreover have "\<forall>q\<in>set (path @ [t]). \<not> anchorFails H q p n" using path step.hyps by simp
  ultimately show ?case by blast
qed

lemma path_reachable:
  "epsilonPath H path \<Longrightarrow> hd path \<in> reachable H p n S \<Longrightarrow>
   \<forall>q\<in>set path. \<not> anchorFails H q p n \<Longrightarrow> last path \<in> reachable H p n S"
proof (induction H path rule: epsilonPath.induct)
  case (3 H s t rest)
  have "t \<in> reachable H p n S" using "3.prems" by (auto intro: reachable.step)
  then show ?case using "3" by simp
qed auto

lemma epsilonLoop_append:
  "epsilonLoop H p n res (st1 @ st2) = epsilonLoop H p n (epsilonLoop H p n res st2) st1"
proof (induction res st2 arbitrary: st1 rule: epsilonLoop_induct [where H = H and p = p and n = n])
  case (Nil res)
  show ?case by simp
next
  case (skip res st s)
  then show ?case by (simp add: epsilonLoop_snoc epsilonLoop_snoc2)
next
  case (add res st s)
  from add.IH [of st1] add.hyps show ?case by (simp add: epsilonLoop_snoc epsilonLoop_snoc2)
qed

lemma epsilonLoop_filter:
  "set R \<subseteq> set res \<Longrightarrow>
   epsilonLoop H p n res (st @ filter (\<lambda>t. t \<notin> set R) ys) = epsilonLoop H p n res (st @ ys)"
proof (induction ys arbitrary: res rule: rev_induct)
  case Nil
  show ?case by simp
next
  case (snoc x xs)
  show ?case
  proof (cases "x \<in> set res \<or> anchorFails H x p n")
    case True
    then show ?thesis using snoc by (auto simp: epsilonLoop_snoc2)
  next
    case False
    let ?F = "filter (\<lambda>t. t \<notin> set (res @ [x])) (epsilons (deref H x))"
    let ?res = "epsilonLoop H p n (res @ [x]) ?F"
    have sub: "set R \<subseteq> set ?res"
      using snoc.prems epsilonLoop_mono [of "res @ [x]" H p n ?F] by auto
    have "epsilonLoop H p n (res @ [x]) ((st @ filter (\<lambda>t. t \<notin> set R) xs) @ ?F) =
          epsilonLoop H p n (res @ [x]) ((st @ xs) @ ?F)"
      unfolding epsilonLoop_append [of H p n "res @ [x]" _ ?F] using snoc.IH [OF sub] .
    then show ?thesis using False snoc.prems by (auto simp: epsilonLoop_snoc2)
  qed
qed

lemma epsilonLoop_dfs:
  "epsilonLoop H p n res (st @ [s]) =
     (if s \<in> set res \<or> anchorFails H s p n then epsilonLoop H p n res st
      else epsilonLoop H p n (epsilonLoop H p n (res @ [s]) (epsilons (deref H s))) st)"
proof -
  have "epsilonLoop H p n (res @ [s]) ([] @ filter (\<lambda>t. t \<notin> set (res @ [s])) (epsilons (deref H s)))
        = epsilonLoop H p n (res @ [s]) ([] @ epsilons (deref H s))"
    by (rule epsilonLoop_filter) simp
  then show ?thesis
    by (simp add: epsilonLoop_snoc epsilonLoop_append [of H p n "res @ [s]" st])
qed

section \<open>Claims about the epsilon closure\<close>

text \<open>
  Claim C6.  \<open>epsilonClosure\<close> terminates on every heap, cyclic or not, for every seed
  list, index and length: the loop, run without any termination argument built in, returns
  a result, that result is the closure used by the engine, and no state occurs in it twice
  (a state is added, and its edges expanded, at most once).
\<close>

theorem epsilonClosure_terminates:
  "\<exists>result. epsilonWhile H position seqLength [] states = Some result \<and>
            result = epsilonClosure H states position seqLength \<and> distinct result"
  by (simp add: epsilonWhile_eq epsilonClosure_def epsilonLoop_distinct)

text \<open>A two-state cycle, as an unbounded quantifier produces: the loop returns.\<close>

theorem epsilonClosure_terminates_witness:
  "epsilonWhile
     [\<lparr>state_id = 0, epsilons = [1], transitions = [], anchorCheck = None\<rparr>,
      \<lparr>state_id = 1, epsilons = [0], transitions = ([] :: nat Predicate Transition list), anchorCheck = None\<rparr>]
     0 (enat 2) [] [0] = Some [0, 1]"
  using epsilonClosure_terminates
    [of "[\<lparr>state_id = 0, epsilons = [1], transitions = [], anchorCheck = None\<rparr>,
          \<lparr>state_id = 1, epsilons = [0], transitions = ([] :: nat Predicate Transition list), anchorCheck = None\<rparr>]"
        0 "enat 2" "[0]"]
  by (simp add: epsilonClosure_def epsilonLoop.simps Let_def anchorFails_def deref_def set_add_def)

text \<open>
  Claim C7.  A state is in the closure exactly when an epsilon path leads to it from a seed
  and every state of that path, the seed and the state itself included, passes its anchor
  guard at the given index and length.  So a state whose guard is false is not in the
  closure, its epsilon edges are not followed, and a state that can only be reached through
  such a state is not in the closure either.
\<close>

theorem epsilonClosure_anchor_pruning:
  "s \<in> set (epsilonClosure H states position seqLength) \<longleftrightarrow>
     (\<exists>path. epsilonPath H path \<and> hd path \<in> set states \<and> last path = s \<and>
             (\<forall>q\<in>set path. \<not> anchorFails H q position seqLength))"
proof
  assume "s \<in> set (epsilonClosure H states position seqLength)"
  then have "s \<in> reachable H position seqLength (set states)"
    by (simp add: epsilonClosure_reachable)
  then show "\<exists>path. epsilonPath H path \<and> hd path \<in> set states \<and> last path = s \<and>
                    (\<forall>q\<in>set path. \<not> anchorFails H q position seqLength)"
    by (rule reachable_path)
next
  assume "\<exists>path. epsilonPath H path \<and> hd path \<in> set states \<and> last path = s \<and>
                 (\<forall>q\<in>set path. \<not> anchorFails H q position seqLength)"
  then obtain path where path: "epsilonPath H path" "hd path \<in> set states" "last path = s"
    "\<forall>q\<in>set path. \<not> anchorFails H q position seqLength" by blast
  have "hd path \<in> set path" using epsilonPath_nonempty [OF path(1)] by simp
  then have "hd path \<in> reachable H position seqLength (set states)"
    using path by (auto intro: reachable.seed)
  then have "last path \<in> reachable H position seqLength (set states)"
    using path by (intro path_reachable)
  then show "s \<in> set (epsilonClosure H states position seqLength)"
    using path by (simp add: epsilonClosure_reachable)
qed

text \<open>
  State 0 leads to state 1, which carries an end guard, and state 1 leads to state 2.  At
  index 0 of 3 the guard is false: state 0 is in the closure, states 1 and 2 are not.
\<close>

theorem epsilonClosure_anchor_pruning_witness:
  "epsilonPath
     [\<lparr>state_id = 0, epsilons = [1], transitions = [], anchorCheck = None\<rparr>,
      \<lparr>state_id = 1, epsilons = [2], transitions = [],
        anchorCheck = Some (\<lambda>index length. enat index = length)\<rparr>,
      \<lparr>state_id = 2, epsilons = [], transitions = ([] :: nat Predicate Transition list), anchorCheck = None\<rparr>]
     [0] \<and>
   0 \<in> set (epsilonClosure
     [\<lparr>state_id = 0, epsilons = [1], transitions = [], anchorCheck = None\<rparr>,
      \<lparr>state_id = 1, epsilons = [2], transitions = [],
        anchorCheck = Some (\<lambda>index length. enat index = length)\<rparr>,
      \<lparr>state_id = 2, epsilons = [], transitions = ([] :: nat Predicate Transition list), anchorCheck = None\<rparr>]
     [0] 0 (enat 3)) \<and>
   2 \<notin> set (epsilonClosure
     [\<lparr>state_id = 0, epsilons = [1], transitions = [], anchorCheck = None\<rparr>,
      \<lparr>state_id = 1, epsilons = [2], transitions = [],
        anchorCheck = Some (\<lambda>index length. enat index = length)\<rparr>,
      \<lparr>state_id = 2, epsilons = [], transitions = ([] :: nat Predicate Transition list), anchorCheck = None\<rparr>]
     [0] 0 (enat 3))"
  using epsilonClosure_anchor_pruning
    [of 0 "[\<lparr>state_id = 0, epsilons = [1], transitions = [], anchorCheck = None\<rparr>,
      \<lparr>state_id = 1, epsilons = [2], transitions = [],
        anchorCheck = Some (\<lambda>index length. enat index = length)\<rparr>,
      \<lparr>state_id = 2, epsilons = [], transitions = ([] :: nat Predicate Transition list), anchorCheck = None\<rparr>]"
      "[0]" 0 "enat 3"]
  by (simp add: epsilonClosure_def epsilonLoop.simps Let_def anchorFails_def deref_def
        set_add_def zero_enat_def)

text \<open>
  Claim C5, as stated, fails.  The traversal takes states from the end of its stack, so two
  seeds without edges come out in the reverse of their given order, and the two epsilon
  targets of a state come out in the reverse of the order in which the state lists them.
\<close>

theorem epsilonClosure_seed_order_counterexample:
  "epsilonClosure
     [\<lparr>state_id = 0, epsilons = [], transitions = [], anchorCheck = None\<rparr>,
      \<lparr>state_id = 1, epsilons = [], transitions = ([] :: nat Predicate Transition list), anchorCheck = None\<rparr>]
     [0, 1] 0 (enat 2) = [1, 0] \<and>
   epsilonClosure
     [\<lparr>state_id = 0, epsilons = [1, 2], transitions = [], anchorCheck = None\<rparr>,
      \<lparr>state_id = 1, epsilons = [], transitions = [], anchorCheck = None\<rparr>,
      \<lparr>state_id = 2, epsilons = [], transitions = ([] :: nat Predicate Transition list), anchorCheck = None\<rparr>]
     [0] 0 (enat 2) = [0, 2, 1]"
  by (simp add: epsilonClosure_def epsilonLoop.simps Let_def anchorFails_def deref_def set_add_def)

text \<open>
  Claim C5, amended.  The returned set lists the states in the order in which the traversal
  adds them, and the traversal is last-in first-out: whatever was added stays in front
  (the result so far is a prefix of the final result), the seed given last is visited first,
  and once a state is added its epsilon targets, the last listed first, are explored to the
  end before the traversal turns to the entries below it on the stack.  No state is listed
  twice.
\<close>

theorem epsilonClosure_discovery_order:
  "prefix res (epsilonLoop H position seqLength res stack) \<and>
   epsilonLoop H position seqLength res (stack @ [s]) =
     (if s \<in> set res \<or> anchorFails H s position seqLength
      then epsilonLoop H position seqLength res stack
      else epsilonLoop H position seqLength
             (epsilonLoop H position seqLength (res @ [s]) (epsilons (deref H s))) stack) \<and>
   epsilonClosure H (states @ [s]) position seqLength =
     (if anchorFails H s position seqLength then epsilonClosure H states position seqLength
      else epsilonLoop H position seqLength
             (epsilonLoop H position seqLength [s] (epsilons (deref H s))) states) \<and>
   distinct (epsilonClosure H states position seqLength)"
  using epsilonLoop_dfs [of H position seqLength "[]" states s]
  by (simp add: epsilonLoop_prefix epsilonLoop_dfs epsilonClosure_def epsilonLoop_distinct)

theorem epsilonClosure_discovery_order_witness:
  "epsilonClosure
     [\<lparr>state_id = 0, epsilons = [1, 2], transitions = [], anchorCheck = None\<rparr>,
      \<lparr>state_id = 1, epsilons = [], transitions = [], anchorCheck = None\<rparr>,
      \<lparr>state_id = 2, epsilons = [1], transitions = ([] :: nat Predicate Transition list), anchorCheck = None\<rparr>]
     ([1] @ [0]) 0 (enat 2) = [0, 2, 1]"
  using epsilonClosure_discovery_order
    [of "[]" "[\<lparr>state_id = 0, epsilons = [1, 2], transitions = [], anchorCheck = None\<rparr>,
      \<lparr>state_id = 1, epsilons = [], transitions = [], anchorCheck = None\<rparr>,
      \<lparr>state_id = 2, epsilons = [1], transitions = ([] :: nat Predicate Transition list), anchorCheck = None\<rparr>]"
      0 "enat 2" "[1]" 0 "[1]"]
  by (simp add: epsilonLoop.simps Let_def anchorFails_def deref_def set_add_def)

section \<open>Properties of the batch engine\<close>

lemma nextStates_Nil [simp]: "nextStates H [] x = []"
  by (simp add: nextStates_def)

lemma epsilonClosure_Nil [simp]: "epsilonClosure H [] p n = []"
  by (simp add: epsilonClosure_def)

lemma activeAt_dead: "activeAt H nfa sq off k = [] \<Longrightarrow> activeAt H nfa sq off (k + m) = []"
  by (induction m) (auto simp: activeAt.simps)

lemma candidate_alive:
  assumes "activeAt H nfa sq off k = []" "k \<le> k'"
  shows "\<not> candidate H nfa sq off k'"
proof -
  have "activeAt H nfa sq off (k + (k' - k)) = []" using assms(1) by (rule activeAt_dead)
  then show ?thesis using assms(2) by (simp add: candidate_def)
qed

lemma simulateLoop_unfold:
  "simulateLoop H nfa sq off greedy i active l0 =
     (if i < length sq then
        (if epsilonClosure H (nextStates H active (sq ! i)) (Suc i) (enat (length sq)) = [] then l0
         else if accept nfa \<in> set (epsilonClosure H (nextStates H active (sq ! i)) (Suc i)
                                     (enat (length sq)))
         then (if greedy
               then simulateLoop H nfa sq off greedy (Suc i)
                      (epsilonClosure H (nextStates H active (sq ! i)) (Suc i) (enat (length sq)))
                      (int i - int off + 1)
               else int i - int off + 1)
         else simulateLoop H nfa sq off greedy (Suc i)
                (epsilonClosure H (nextStates H active (sq ! i)) (Suc i) (enat (length sq))) l0)
      else l0)"
  by (subst simulateLoop.simps) (simp add: Let_def)

lemma simulateFrom_unfold:
  "simulateFrom H nfa sq off greedy j l0 =
     (if off + j < length sq then
        (if activeAt H nfa sq off (Suc j) = [] then l0
         else if accept nfa \<in> set (activeAt H nfa sq off (Suc j))
         then (if greedy then simulateFrom H nfa sq off greedy (Suc j) (int (Suc j))
               else int (Suc j))
         else simulateFrom H nfa sq off greedy (Suc j) l0)
      else l0)"
  unfolding simulateFrom_def
  by (subst simulateLoop_unfold) (simp add: activeAt.simps add.commute)

lemma simulateFrom_spec:
  "(simulateFrom H nfa sq off greedy j l0 = l0 \<and> (\<forall>k. j < k \<longrightarrow> \<not> candidate H nfa sq off k)) \<or>
   (\<exists>k. j < k \<and> simulateFrom H nfa sq off greedy j l0 = int k \<and> candidate H nfa sq off k \<and>
        (\<forall>k'. j < k' \<and> candidate H nfa sq off k' \<longrightarrow> (if greedy then k' \<le> k else k \<le> k')))"
proof (induction "length sq - (off + j)" arbitrary: j l0)
  case 0
  then have "simulateFrom H nfa sq off greedy j l0 = l0"
    by (subst simulateFrom_unfold) simp
  moreover have "\<forall>k. j < k \<longrightarrow> \<not> candidate H nfa sq off k"
    using 0 by (auto simp: candidate_def)
  ultimately show ?case by blast
next
  case (Suc n)
  then have inside: "off + j < length sq" by simp
  have IH: "(simulateFrom H nfa sq off greedy (Suc j) l = l \<and>
               (\<forall>k. Suc j < k \<longrightarrow> \<not> candidate H nfa sq off k)) \<or>
            (\<exists>k. Suc j < k \<and> simulateFrom H nfa sq off greedy (Suc j) l = int k \<and>
               candidate H nfa sq off k \<and>
               (\<forall>k'. Suc j < k' \<and> candidate H nfa sq off k' \<longrightarrow>
                  (if greedy then k' \<le> k else k \<le> k')))" for l
    using Suc.hyps(1) [of "Suc j" l] Suc.hyps(2) by simp
  have above: "j < k \<longleftrightarrow> k = Suc j \<or> Suc j < k" for k by auto
  show ?case
  proof (cases "activeAt H nfa sq off (Suc j) = []")
    case True
    then have "simulateFrom H nfa sq off greedy j l0 = l0"
      by (subst simulateFrom_unfold) simp
    moreover have "\<forall>k. j < k \<longrightarrow> \<not> candidate H nfa sq off k"
      using candidate_alive [OF True] by (simp add: Suc_le_eq)
    ultimately show ?thesis by blast
  next
    case alive: False
    show ?thesis
    proof (cases "accept nfa \<in> set (activeAt H nfa sq off (Suc j))")
      case acc: True
      then have cand: "candidate H nfa sq off (Suc j)"
        using inside by (simp add: candidate_def)
      show ?thesis
      proof (cases greedy)
        case False
        then have "simulateFrom H nfa sq off greedy j l0 = int (Suc j)"
          using inside alive acc by (subst simulateFrom_unfold) simp
        then show ?thesis using cand False
          by (intro disjI2 exI [of _ "Suc j"]) (simp add: Suc_le_eq)
      next
        case True
        then have eq: "simulateFrom H nfa sq off greedy j l0 =
                       simulateFrom H nfa sq off greedy (Suc j) (int (Suc j))"
          using inside alive acc by (subst simulateFrom_unfold) simp
        from IH [of "int (Suc j)"] show ?thesis
        proof
          assume h: "simulateFrom H nfa sq off greedy (Suc j) (int (Suc j)) = int (Suc j) \<and>
                     (\<forall>k. Suc j < k \<longrightarrow> \<not> candidate H nfa sq off k)"
          then have "\<forall>k'. j < k' \<and> candidate H nfa sq off k' \<longrightarrow> k' \<le> Suc j"
            unfolding above by auto
          then show ?thesis using h cand eq True
            by (intro disjI2 exI [of _ "Suc j"]) simp
        next
          assume "\<exists>k. Suc j < k \<and>
                   simulateFrom H nfa sq off greedy (Suc j) (int (Suc j)) = int k \<and>
                   candidate H nfa sq off k \<and>
                   (\<forall>k'. Suc j < k' \<and> candidate H nfa sq off k' \<longrightarrow>
                      (if greedy then k' \<le> k else k \<le> k'))"
          then obtain k where k: "Suc j < k"
            "simulateFrom H nfa sq off greedy (Suc j) (int (Suc j)) = int k"
            "candidate H nfa sq off k"
            "\<forall>k'. Suc j < k' \<and> candidate H nfa sq off k' \<longrightarrow> k' \<le> k"
            using True by auto
          have "\<forall>k'. j < k' \<and> candidate H nfa sq off k' \<longrightarrow> k' \<le> k"
            unfolding above using k(1,4) by auto
          moreover have "j < k" using k(1) by simp
          ultimately show ?thesis using k(2,3) eq True
            by (intro disjI2 exI [of _ k]) simp
        qed
      qed
    next
      case nacc: False
      then have ncand: "\<not> candidate H nfa sq off (Suc j)"
        by (simp add: candidate_def)
      have eq: "simulateFrom H nfa sq off greedy j l0 =
                simulateFrom H nfa sq off greedy (Suc j) l0"
        using inside alive nacc by (subst simulateFrom_unfold) simp
      from IH [of l0] show ?thesis
      proof
        assume h: "simulateFrom H nfa sq off greedy (Suc j) l0 = l0 \<and>
                   (\<forall>k. Suc j < k \<longrightarrow> \<not> candidate H nfa sq off k)"
        then have "\<forall>k. j < k \<longrightarrow> \<not> candidate H nfa sq off k"
          unfolding above using ncand by auto
        then show ?thesis using h eq by (intro disjI1) simp
      next
        assume "\<exists>k. Suc j < k \<and> simulateFrom H nfa sq off greedy (Suc j) l0 = int k \<and>
                   candidate H nfa sq off k \<and>
                   (\<forall>k'. Suc j < k' \<and> candidate H nfa sq off k' \<longrightarrow>
                      (if greedy then k' \<le> k else k \<le> k'))"
        then obtain k where k: "Suc j < k"
          "simulateFrom H nfa sq off greedy (Suc j) l0 = int k"
          "candidate H nfa sq off k"
          "\<forall>k'. Suc j < k' \<and> candidate H nfa sq off k' \<longrightarrow>
                      (if greedy then k' \<le> k else k \<le> k')"
          by auto
        have "\<forall>k'. j < k' \<and> candidate H nfa sq off k' \<longrightarrow>
                      (if greedy then k' \<le> k else k \<le> k')"
          unfolding above using k(4) ncand by auto
        moreover have "j < k" using k(1) by simp
        ultimately show ?thesis using k(2,3) eq
          by (intro disjI2 exI [of _ k]) simp
      qed
    qed
  qed
qed

lemma simulate_unfold:
  "simulate H nfa sq off greedy =
     (if \<not> greedy \<and> candidate H nfa sq off 0 then \<lparr>matched = True, matchLength = 0\<rparr>
      else \<lparr>matched = (simulateFrom H nfa sq off greedy 0
                          (if candidate H nfa sq off 0 then 0 else - 1) \<ge> 0),
            matchLength = nat (max (simulateFrom H nfa sq off greedy 0
                          (if candidate H nfa sq off 0 then 0 else - 1)) 0)\<rparr>)"
  by (simp add: simulate_def simulateFrom_def candidate_def activeAt.simps Let_def)

lemma simulate_spec:
  "(matched (simulate H nfa sq off greedy) \<longleftrightarrow> (\<exists>k. candidate H nfa sq off k)) \<and>
   (\<not> matched (simulate H nfa sq off greedy) \<longrightarrow> matchLength (simulate H nfa sq off greedy) = 0) \<and>
   (matched (simulate H nfa sq off greedy) \<longrightarrow>
      candidate H nfa sq off (matchLength (simulate H nfa sq off greedy)) \<and>
      (\<forall>k. candidate H nfa sq off k \<longrightarrow>
         (if greedy then k \<le> matchLength (simulate H nfa sq off greedy)
          else matchLength (simulate H nfa sq off greedy) \<le> k)))"
proof (cases "\<not> greedy \<and> candidate H nfa sq off 0")
  case True
  then have "simulate H nfa sq off greedy = \<lparr>matched = True, matchLength = 0\<rparr>"
    by (subst simulate_unfold) simp
  then show ?thesis using True by auto
next
  case False
  define l0 :: int where "l0 = (if candidate H nfa sq off 0 then 0 else - 1)"
  define r where "r = simulateFrom H nfa sq off greedy 0 l0"
  have sim: "simulate H nfa sq off greedy = \<lparr>matched = (r \<ge> 0), matchLength = nat (max r 0)\<rparr>"
    using False unfolding r_def l0_def by (subst simulate_unfold) auto
  have pos: "0 < k \<longleftrightarrow> k \<noteq> 0" for k :: nat by auto
  from simulateFrom_spec [of H nfa sq off greedy 0 l0]
  show ?thesis
  proof
    assume h: "simulateFrom H nfa sq off greedy 0 l0 = l0 \<and>
               (\<forall>k. 0 < k \<longrightarrow> \<not> candidate H nfa sq off k)"
    then have r: "r = l0" by (simp add: r_def)
    have only0: "candidate H nfa sq off k \<Longrightarrow> k = 0" for k using h by (cases k) auto
    show ?thesis
    proof (cases "candidate H nfa sq off 0")
      case True
      then have "simulate H nfa sq off greedy = \<lparr>matched = True, matchLength = 0\<rparr>"
        using sim r by (simp add: l0_def)
      then show ?thesis using True only0 by auto
    next
      case False
      then have "simulate H nfa sq off greedy = \<lparr>matched = False, matchLength = 0\<rparr>"
        using sim r by (simp add: l0_def)
      then show ?thesis using False only0 by auto
    qed
  next
    assume "\<exists>k. 0 < k \<and> simulateFrom H nfa sq off greedy 0 l0 = int k \<and>
               candidate H nfa sq off k \<and>
               (\<forall>k'. 0 < k' \<and> candidate H nfa sq off k' \<longrightarrow>
                  (if greedy then k' \<le> k else k \<le> k'))"
    then obtain k where k: "0 < k" "r = int k" "candidate H nfa sq off k"
      "\<forall>k'. 0 < k' \<and> candidate H nfa sq off k' \<longrightarrow> (if greedy then k' \<le> k else k \<le> k')"
      unfolding r_def by blast
    have res: "simulate H nfa sq off greedy = \<lparr>matched = True, matchLength = k\<rparr>"
      using sim k(2) by simp
    have "if greedy then k' \<le> k else k \<le> k'" if "candidate H nfa sq off k'" for k'
    proof (cases "k' = 0")
      case True
      then show ?thesis using that False by auto
    next
      case False
      then show ?thesis using k(4) that by simp
    qed
    then show ?thesis using res k(3) by auto
  qed
qed

lemma simulate_positive_bound:
  assumes "matched (simulate H nfa sq off greedy)" "0 < matchLength (simulate H nfa sq off greedy)"
  shows "off + matchLength (simulate H nfa sq off greedy) \<le> length sq"
  using simulate_spec [of H nfa sq off greedy] assms by (auto simp: candidate_def)

lemma findAllLoop_unfold:
  "findAllLoop H nfa sq greedy pos rs =
     (if pos < length sq then
        (if positiveAt H nfa sq greedy pos
         then findAllLoop H nfa sq greedy (pos + matchLength (simulate H nfa sq pos greedy))
                (rs @ [matchAt H nfa sq greedy pos])
         else findAllLoop H nfa sq greedy (Suc pos) rs)
      else rs)"
  by (subst findAllLoop.simps) (simp add: Let_def positiveAt_def matchAt_def)

lemma findAllLoop_acc:
  "findAllLoop H nfa sq greedy pos rs = rs @ findAllLoop H nfa sq greedy pos []"
proof (induction "length sq - pos" arbitrary: pos rs rule: less_induct)
  case less
  show ?case
  proof (cases "pos < length sq")
    case False
    then show ?thesis by (simp add: findAllLoop_unfold [of _ _ _ _ pos])
  next
    case True
    show ?thesis
    proof (cases "positiveAt H nfa sq greedy pos")
      case pos: True
      let ?m = "matchLength (simulate H nfa sq pos greedy)"
      have "0 < ?m" using pos by (simp add: positiveAt_def)
      then have dec: "length sq - (pos + ?m) < length sq - pos" using True by simp
      show ?thesis
        using True pos less [OF dec, of "rs @ [matchAt H nfa sq greedy pos]"]
          less [OF dec, of "[matchAt H nfa sq greedy pos]"]
        by (simp add: findAllLoop_unfold [of _ _ _ _ pos])
    next
      case False
      have dec: "length sq - Suc pos < length sq - pos" using True by simp
      show ?thesis
        using True False less [OF dec, of rs]
        by (simp add: findAllLoop_unfold [of _ _ _ _ pos])
    qed
  qed
qed

lemma findFrom_unfold:
  "findAllLoop H nfa sq greedy pos [] =
     (if pos < length sq then
        (if positiveAt H nfa sq greedy pos
         then matchAt H nfa sq greedy pos #
              findAllLoop H nfa sq greedy (pos + matchLength (simulate H nfa sq pos greedy)) []
         else findAllLoop H nfa sq greedy (Suc pos) [])
      else [])"
  using findAllLoop_acc [of H nfa sq greedy "pos + matchLength (simulate H nfa sq pos greedy)"
      "[matchAt H nfa sq greedy pos]"]
  by (subst findAllLoop_unfold) simp

lemma findFrom_members:
  "r \<in> set (findAllLoop H nfa sq greedy pos []) \<Longrightarrow>
   pos \<le> start_idx r \<and> start_idx r < length sq \<and> positiveAt H nfa sq greedy (start_idx r) \<and>
   r = matchAt H nfa sq greedy (start_idx r)"
proof (induction "length sq - pos" arbitrary: pos rule: less_induct)
  case less
  show ?case
  proof (cases "pos < length sq")
    case False
    then show ?thesis using less.prems by (simp add: findFrom_unfold [of _ _ _ _ pos])
  next
    case True
    show ?thesis
    proof (cases "positiveAt H nfa sq greedy pos")
      case pos: True
      let ?m = "matchLength (simulate H nfa sq pos greedy)"
      have "0 < ?m" using pos by (simp add: positiveAt_def)
      then have dec: "length sq - (pos + ?m) < length sq - pos" using True by simp
      from less.prems True pos
      have "r = matchAt H nfa sq greedy pos \<or> r \<in> set (findAllLoop H nfa sq greedy (pos + ?m) [])"
        by (simp add: findFrom_unfold [of _ _ _ _ pos])
      then show ?thesis
      proof
        assume "r = matchAt H nfa sq greedy pos"
        then show ?thesis using True pos by (simp add: matchAt_def)
      next
        assume "r \<in> set (findAllLoop H nfa sq greedy (pos + ?m) [])"
        from less.hyps [OF dec this] show ?thesis by simp
      qed
    next
      case False
      have dec: "length sq - Suc pos < length sq - pos" using True by simp
      from less.prems True False
      have "r \<in> set (findAllLoop H nfa sq greedy (Suc pos) [])"
        by (simp add: findFrom_unfold [of _ _ _ _ pos])
      from less.hyps [OF dec this] show ?thesis by simp
    qed
  qed
qed

lemma findFrom_sorted:
  "sorted_wrt (\<lambda>a b. end_idx a < start_idx b) (findAllLoop H nfa sq greedy pos [])"
proof (induction "length sq - pos" arbitrary: pos rule: less_induct)
  case less
  show ?case
  proof (cases "pos < length sq")
    case False
    then show ?thesis by (simp add: findFrom_unfold [of _ _ _ _ pos])
  next
    case True
    show ?thesis
    proof (cases "positiveAt H nfa sq greedy pos")
      case pos: True
      let ?m = "matchLength (simulate H nfa sq pos greedy)"
      have m: "0 < ?m" using pos by (simp add: positiveAt_def)
      then have dec: "length sq - (pos + ?m) < length sq - pos" using True by simp
      have "end_idx (matchAt H nfa sq greedy pos) < start_idx r"
        if "r \<in> set (findAllLoop H nfa sq greedy (pos + ?m) [])" for r
      proof -
        have "pos + ?m \<le> start_idx r" using findFrom_members [OF that] by blast
        then show ?thesis using m unfolding matchAt_def by simp
      qed
      then show ?thesis
        using True pos less.hyps [OF dec] by (simp add: findFrom_unfold [of _ _ _ _ pos])
    next
      case False
      have dec: "length sq - Suc pos < length sq - pos" using True by simp
      show ?thesis
        using True False less.hyps [OF dec] by (simp add: findFrom_unfold [of _ _ _ _ pos])
    qed
  qed
qed

lemma findFrom_covers:
  "pos \<le> p \<Longrightarrow> p < length sq \<Longrightarrow> positiveAt H nfa sq greedy p \<Longrightarrow>
   \<exists>r\<in>set (findAllLoop H nfa sq greedy pos []). start_idx r \<le> p \<and> p \<le> end_idx r"
proof (induction "length sq - pos" arbitrary: pos rule: less_induct)
  case less
  then have True: "pos < length sq" by simp
  show ?case
  proof (cases "positiveAt H nfa sq greedy pos")
    case pos: True
    let ?m = "matchLength (simulate H nfa sq pos greedy)"
    have m: "0 < ?m" using pos by (simp add: positiveAt_def)
    then have dec: "length sq - (pos + ?m) < length sq - pos" using True by simp
    show ?thesis
    proof (cases "p < pos + ?m")
      case True
      then have "start_idx (matchAt H nfa sq greedy pos) \<le> p \<and>
                 p \<le> end_idx (matchAt H nfa sq greedy pos)"
        using less.prems by (simp add: matchAt_def)
      then show ?thesis using \<open>pos < length sq\<close> pos
        by (subst findFrom_unfold) simp
    next
      case False
      then have "pos + ?m \<le> p" by simp
      from less.hyps [OF dec this less.prems(2,3)] show ?thesis
        using \<open>pos < length sq\<close> pos by (subst findFrom_unfold) auto
    qed
  next
    case False
    have dec: "length sq - Suc pos < length sq - pos" using True by simp
    have "Suc pos \<le> p" using less.prems False by (cases "p = pos") auto
    from less.hyps [OF dec this less.prems(2,3)] show ?thesis
      using True False by (subst findFrom_unfold) simp
  qed
qed

lemma matchAt_shape:
  assumes "positiveAt H nfa sq greedy pos"
  shows "start_idx (matchAt H nfa sq greedy pos) \<le> end_idx (matchAt H nfa sq greedy pos)"
    and "end_idx (matchAt H nfa sq greedy pos) < length sq"
    and "length (data (matchAt H nfa sq greedy pos)) =
         end_idx (matchAt H nfa sq greedy pos) - start_idx (matchAt H nfa sq greedy pos) + 1"
    and "data (matchAt H nfa sq greedy pos) =
         slice sq (start_idx (matchAt H nfa sq greedy pos)) (end_idx (matchAt H nfa sq greedy pos) + 1)"
    and "end_idx (matchAt H nfa sq greedy pos) - start_idx (matchAt H nfa sq greedy pos) + 1 =
         matchLength (simulate H nfa sq pos greedy)"
proof -
  let ?m = "matchLength (simulate H nfa sq pos greedy)"
  have m: "0 < ?m" and b: "pos + ?m \<le> length sq"
    using assms simulate_positive_bound [of H nfa sq pos greedy] by (simp_all add: positiveAt_def)
  show "start_idx (matchAt H nfa sq greedy pos) \<le> end_idx (matchAt H nfa sq greedy pos)"
    using m by (simp add: matchAt_def)
  show "end_idx (matchAt H nfa sq greedy pos) < length sq"
    using m b by (simp add: matchAt_def)
  show "length (data (matchAt H nfa sq greedy pos)) =
         end_idx (matchAt H nfa sq greedy pos) - start_idx (matchAt H nfa sq greedy pos) + 1"
    using m b by (simp add: matchAt_def slice_def)
  show "data (matchAt H nfa sq greedy pos) =
         slice sq (start_idx (matchAt H nfa sq greedy pos)) (end_idx (matchAt H nfa sq greedy pos) + 1)"
    using m by (simp add: matchAt_def slice_def)
  show "end_idx (matchAt H nfa sq greedy pos) - start_idx (matchAt H nfa sq greedy pos) + 1 = ?m"
    using m by (simp add: matchAt_def)
qed

lemma findFirstLoop_unfold:
  "findFirstLoop H nfa sq greedy pos =
     (if pos < length sq then
        (if positiveAt H nfa sq greedy pos then Some (matchAt H nfa sq greedy pos)
         else findFirstLoop H nfa sq greedy (Suc pos))
      else None)"
  by (subst findFirstLoop.simps) (simp add: Let_def positiveAt_def matchAt_def)

lemma findFirstLoop_findAllLoop:
  "findFirstLoop H nfa sq greedy pos =
     (case findAllLoop H nfa sq greedy pos [] of [] \<Rightarrow> None | r # rs \<Rightarrow> Some r)"
proof (induction "length sq - pos" arbitrary: pos rule: less_induct)
  case less
  show ?case
  proof (cases "pos < length sq")
    case False
    then show ?thesis
      by (simp add: findFirstLoop_unfold [of _ _ _ _ pos] findFrom_unfold [of _ _ _ _ pos])
  next
    case True
    then have dec: "length sq - Suc pos < length sq - pos" by simp
    show ?thesis
      using True less [OF dec]
      by (simp add: findFirstLoop_unfold [of _ _ _ _ pos] findFrom_unfold [of _ _ _ _ pos])
  qed
qed

section \<open>The compiler and the batch engine as partial functions\<close>

text \<open>
  The same code once more, with nothing assumed about its returning: a call has the value
  \<open>None\<close> when it does not return normally, because a recursion or a loop does not end or
  because a property of \<open>undefined\<close> is read (\<open>fragments[0].start\<close> on an empty array).
  The recursion of \<open>compileNode\<close> and every \<open>while\<close> and \<open>for\<close> loop with an exit of its
  own are partial functions; the closure is the loop \<open>epsilonWhile\<close>.  Predicates are total.
\<close>

type_synonym 'p compilerP = "'p heap \<Rightarrow> (NFA \<times> 'p heap) option"

fun compileAllP :: "'p compilerP list \<Rightarrow> 'p heap \<Rightarrow> (NFA list \<times> 'p heap) option" where
  "compileAllP [] H = Some ([], H)"
| "compileAllP (child # children) H =
     Option.bind (child H) (\<lambda>r.
       Option.bind (compileAllP children (snd r)) (\<lambda>rs.
         Some (fst r # fst rs, snd rs)))"

definition compileSequenceP :: "'p compilerP list \<Rightarrow> 'p compilerP" where
  "compileSequenceP children H =
     (case children of
        [] \<Rightarrow>
          (let (st, H1) = createState H;
               (ac, H2) = createState H1;
               H3 = pushEpsilons st [ac] H2
           in Some (\<lparr>start = st, accept = ac\<rparr>, H3))
      | [child] \<Rightarrow> child H
      | _ \<Rightarrow>
          Option.bind (compileAllP children H) (\<lambda>r.
            let H2 = linkFragments (fst r) (snd r) in
            case fst r of
              [] \<Rightarrow> None
            | first # others \<Rightarrow>
                Some (\<lparr>start = start first, accept = accept (last (fst r))\<rparr>, H2)))"

fun mandatoryCopiesP ::
  "'p compilerP \<Rightarrow> nat \<Rightarrow> nat \<Rightarrow> 'p heap \<Rightarrow> (nat \<times> 'p heap) option" where
  "mandatoryCopiesP child 0 lastState H = Some (lastState, H)"
| "mandatoryCopiesP child (Suc k) lastState H =
     Option.bind (child H) (\<lambda>r.
       mandatoryCopiesP child k (accept (fst r))
         (pushEpsilons lastState [start (fst r)] (snd r)))"

fun optionalCopiesP ::
  "'p compilerP \<Rightarrow> nat \<Rightarrow> bool \<Rightarrow> nat \<Rightarrow> nat \<Rightarrow> 'p heap \<Rightarrow> (nat \<times> 'p heap) option" where
  "optionalCopiesP child 0 greedy ac lastState H = Some (lastState, H)"
| "optionalCopiesP child (Suc k) greedy ac lastState H =
     Option.bind (child H) (\<lambda>r.
       optionalCopiesP child k greedy ac (accept (fst r))
         (pushEpsilons lastState
            (if greedy then [start (fst r), ac] else [ac, start (fst r)]) (snd r)))"

definition compileQuantifierP :: "'p compilerP \<Rightarrow> nat \<Rightarrow> enat \<Rightarrow> bool \<Rightarrow> 'p compilerP" where
  "compileQuantifierP child mn mx greedy H =
     (let (st, H1) = createState H;
          (ac, H2) = createState H1
      in Option.bind (mandatoryCopiesP child mn st H2) (\<lambda>m.
           case mx of
             \<infinity> \<Rightarrow>
               Option.bind (child (snd m)) (\<lambda>r.
                 let H5 = pushEpsilons (fst m)
                            (if greedy then [start (fst r), ac] else [ac, start (fst r)]) (snd r);
                     H6 = pushEpsilons (accept (fst r)) [fst m] H5
                 in Some (\<lparr>start = st, accept = ac\<rparr>, H6))
           | enat k \<Rightarrow>
               Option.bind (optionalCopiesP child (k - mn) greedy ac (fst m) (snd m)) (\<lambda>r.
                 Some (\<lparr>start = st, accept = ac\<rparr>, pushEpsilons (fst r) [ac] (snd r)))))"

definition compileAlternationP :: "'p compilerP \<Rightarrow> 'p compilerP \<Rightarrow> 'p compilerP" where
  "compileAlternationP left right H =
     (let (st, H1) = createState H;
          (ac, H2) = createState H1
      in Option.bind (left H2) (\<lambda>l.
           Option.bind (right (snd l)) (\<lambda>r.
             let H5 = pushEpsilons st [start (fst l), start (fst r)] (snd r);
                 H6 = pushEpsilons (accept (fst l)) [ac] H5;
                 H7 = pushEpsilons (accept (fst r)) [ac] H6
             in Some (\<lparr>start = st, accept = ac\<rparr>, H7))))"

text \<open>Monotonicity of the combinators in the compilers they are given.\<close>

lemma compileAllP_mono [partial_function_mono]:
  assumes "\<And>c H. c \<in> set cs \<Longrightarrow> mono_option (\<lambda>f. C c f H)"
  shows "mono_option (\<lambda>f. compileAllP (map (\<lambda>c. C c f) cs) H)"
  using assms by (induction cs arbitrary: H) (auto intro!: partial_function_mono)

lemma mandatoryCopiesP_mono [partial_function_mono]:
  assumes "\<And>H. mono_option (\<lambda>f. C f H)"
  shows "mono_option (\<lambda>f. mandatoryCopiesP (C f) k lastState H)"
  using assms by (induction k arbitrary: lastState H) (auto intro!: partial_function_mono)

lemma optionalCopiesP_mono [partial_function_mono]:
  assumes "\<And>H. mono_option (\<lambda>f. C f H)"
  shows "mono_option (\<lambda>f. optionalCopiesP (C f) k greedy ac lastState H)"
  using assms by (induction k arbitrary: lastState H) (auto intro!: partial_function_mono)

lemma compileSequenceP_mono [partial_function_mono]:
  assumes "\<And>c H. c \<in> set cs \<Longrightarrow> mono_option (\<lambda>f. C c f H)"
  shows "mono_option (\<lambda>f. compileSequenceP (map (\<lambda>c. C c f) cs) H)"
proof (cases cs)
  case Nil
  then show ?thesis by (simp add: compileSequenceP_def split_beta Let_def option.const_mono)
next
  case (Cons c rest)
  show ?thesis
  proof (cases rest)
    case Nil
    then show ?thesis using Cons assms by (simp add: compileSequenceP_def)
  next
    case inner: (Cons d more)
    have "mono_option (\<lambda>f. Option.bind (compileAllP (map (\<lambda>c. C c f) cs) H) (\<lambda>r.
            let H2 = linkFragments (fst r) (snd r) in
            case fst r of
              [] \<Rightarrow> None
            | first # others \<Rightarrow>
                Some (\<lparr>start = start first, accept = accept (last (fst r))\<rparr>, H2)))"
      by (intro bind_mono compileAllP_mono assms option.const_mono)
    then show ?thesis using Cons inner by (simp add: compileSequenceP_def del: compileAllP.simps)
  qed
qed

lemma compileQuantifierP_mono [partial_function_mono]:
  assumes "\<And>H. mono_option (\<lambda>f. C f H)"
  shows "mono_option (\<lambda>f. compileQuantifierP (C f) mn mx greedy H)"
  unfolding compileQuantifierP_def Let_def split_beta
  by (cases mx) (auto intro!: partial_function_mono assms)

lemma compileAlternationP_mono [partial_function_mono]:
  assumes "\<And>H. mono_option (\<lambda>f. L f H)" "\<And>H. mono_option (\<lambda>f. R f H)"
  shows "mono_option (\<lambda>f. compileAlternationP (L f) (R f) H)"
  unfolding compileAlternationP_def Let_def split_beta
  by (auto intro!: partial_function_mono assms)

partial_function (option) compileNodeP ::
  "'a Predicate PatternNode \<Rightarrow> 'a Predicate heap \<Rightarrow> (NFA \<times> 'a Predicate heap) option" where
  "compileNodeP node H =
     (case node of
        PredicateNode fn \<Rightarrow> Some (compilePredicate fn H)
      | SequenceNode children \<Rightarrow> compileSequenceP (map (\<lambda>child. compileNodeP child) children) H
      | QuantifierNode child mn mx greedy \<Rightarrow>
          compileQuantifierP (\<lambda>H1. compileNodeP child H1) mn mx greedy H
      | AlternationNode left right \<Rightarrow>
          compileAlternationP (\<lambda>H1. compileNodeP left H1) (\<lambda>H1. compileNodeP right H1) H
      | AnchorNode pos \<Rightarrow> Some (compileAnchor pos H)
      | AnyNode \<Rightarrow> Some (compilePredicate (\<lambda>element. True) H))"

definition compileP :: "'a Predicate PatternNode \<Rightarrow> (NFA \<times> 'a Predicate heap) option" where
  "compileP node = compileNodeP node []"

partial_function (option) simulateWhile ::
  "'a Predicate heap \<Rightarrow> NFA \<Rightarrow> 'a list \<Rightarrow> nat \<Rightarrow> bool \<Rightarrow> nat \<Rightarrow> nat list \<Rightarrow> int \<Rightarrow> int option" where
  "simulateWhile H nfa sequence offset greedy i active lastAcceptLength =
     (if i < length sequence then
        Option.bind
          (epsilonWhile H (i + 1) (enat (length sequence)) []
             (nextStates H active (sequence ! i)))
          (\<lambda>active1.
             if active1 = [] then Some lastAcceptLength
             else if accept nfa \<in> set active1 then
               (if \<not> greedy then Some (int i - int offset + 1)
                else simulateWhile H nfa sequence offset greedy (i + 1) active1
                       (int i - int offset + 1))
             else simulateWhile H nfa sequence offset greedy (i + 1) active1 lastAcceptLength)
      else Some lastAcceptLength)"

definition simulateP :: "'a Predicate heap \<Rightarrow> NFA \<Rightarrow> 'a list \<Rightarrow> nat \<Rightarrow> bool \<Rightarrow> SimResult option" where
  "simulateP H nfa sequence offset greedy =
     Option.bind (epsilonWhile H offset (enat (length sequence)) [] [start nfa]) (\<lambda>active.
       let lastAcceptLength = (if accept nfa \<in> set active then 0 else - 1 :: int) in
       if \<not> greedy \<and> lastAcceptLength \<ge> 0 then Some \<lparr>matched = True, matchLength = 0\<rparr>
       else
         Option.bind (simulateWhile H nfa sequence offset greedy offset active lastAcceptLength)
           (\<lambda>lastAcceptLength1.
              Some \<lparr>matched = (lastAcceptLength1 \<ge> 0),
                    matchLength = nat (max lastAcceptLength1 0)\<rparr>))"

partial_function (option) findAllWhile ::
  "'a Predicate heap \<Rightarrow> NFA \<Rightarrow> 'a list \<Rightarrow> bool \<Rightarrow> nat \<Rightarrow> 'a MatchResult list \<Rightarrow>
   'a MatchResult list option" where
  "findAllWhile H nfa sequence greedy pos results =
     (if pos < length sequence then
        Option.bind (simulateP H nfa sequence pos greedy) (\<lambda>result.
          if matched result \<and> matchLength result > 0 then
            findAllWhile H nfa sequence greedy (pos + matchLength result)
              (results @ [\<lparr>start_idx = pos, end_idx = pos + matchLength result - 1,
                           data = slice sequence pos (pos + matchLength result)\<rparr>])
          else findAllWhile H nfa sequence greedy (pos + 1) results)
      else Some results)"

definition findAllP :: "'a Predicate heap \<Rightarrow> NFA \<Rightarrow> 'a list \<Rightarrow> bool \<Rightarrow> 'a MatchResult list option" where
  "findAllP H nfa sequence greedy = findAllWhile H nfa sequence greedy 0 []"

partial_function (option) findFirstWhile ::
  "'a Predicate heap \<Rightarrow> NFA \<Rightarrow> 'a list \<Rightarrow> bool \<Rightarrow> nat \<Rightarrow> 'a MatchResult option option" where
  "findFirstWhile H nfa sequence greedy pos =
     (if pos < length sequence then
        Option.bind (simulateP H nfa sequence pos greedy) (\<lambda>result.
          if matched result \<and> matchLength result > 0 then
            Some (Some \<lparr>start_idx = pos, end_idx = pos + matchLength result - 1,
                        data = slice sequence pos (pos + matchLength result)\<rparr>)
          else findFirstWhile H nfa sequence greedy (pos + 1))
      else Some None)"

definition findFirstP ::
  "'a Predicate heap \<Rightarrow> NFA \<Rightarrow> 'a list \<Rightarrow> bool \<Rightarrow> 'a MatchResult option option" where
  "findFirstP H nfa sequence greedy = findFirstWhile H nfa sequence greedy 0"

definition testP :: "'a Predicate heap \<Rightarrow> NFA \<Rightarrow> 'a list \<Rightarrow> bool \<Rightarrow> bool option" where
  "testP H nfa sequence greedy =
     Option.bind (findFirstP H nfa sequence greedy) (\<lambda>r. Some (r \<noteq> None))"

section \<open>The partial functions return\<close>

lemma compileAllP_total:
  assumes "\<And>c H. c \<in> set cs \<Longrightarrow> f c H = Some (g c H)"
  shows "compileAllP (map f cs) H = Some (compileAll (map g cs) H)"
  using assms by (induction cs arbitrary: H) (simp_all add: Let_def split_beta)

lemma compileAll_length: "length (fst (compileAll cs H)) = length cs"
  by (induction cs arbitrary: H) (simp_all add: Let_def split_beta)

lemma compileSequenceP_total:
  assumes "\<And>c H. c \<in> set cs \<Longrightarrow> f c H = Some (g c H)"
  shows "compileSequenceP (map f cs) H = Some (compileSequence (map g cs) H)"
proof (cases cs)
  case Nil
  then show ?thesis by (simp add: compileSequenceP_def compileSequence_def Let_def split_beta)
next
  case (Cons c rest)
  show ?thesis
  proof (cases rest)
    case Nil
    then show ?thesis using Cons assms by (simp add: compileSequenceP_def compileSequence_def)
  next
    case inner: (Cons d more)
    have len: "length (fst (compileAll (map g cs) H)) = length cs"
      using compileAll_length [of "map g cs" H] by simp
    then obtain first others where fr: "fst (compileAll (map g cs) H) = first # others"
      using Cons by (cases "fst (compileAll (map g cs) H)") auto
    have "compileSequenceP (map f cs) H =
          Some (\<lparr>start = start first, accept = accept (last (fst (compileAll (map g cs) H)))\<rparr>,
                linkFragments (fst (compileAll (map g cs) H)) (snd (compileAll (map g cs) H)))"
      using Cons inner compileAllP_total [of cs f g H, OF assms] fr
      by (simp add: compileSequenceP_def Let_def del: compileAllP.simps compileAll.simps)
    moreover have "compileSequence (map g cs) H =
          (\<lparr>start = start first, accept = accept (last (fst (compileAll (map g cs) H)))\<rparr>,
           linkFragments (fst (compileAll (map g cs) H)) (snd (compileAll (map g cs) H)))"
      using Cons inner fr
      by (simp add: compileSequence_def Let_def split_beta del: compileAll.simps)
    ultimately show ?thesis by simp
  qed
qed

lemma mandatoryCopiesP_total:
  assumes "\<And>H. f H = Some (g H)"
  shows "mandatoryCopiesP f k lastState H = Some (mandatoryCopies g k lastState H)"
  by (induction k arbitrary: lastState H) (simp_all add: assms Let_def split_beta)

lemma optionalCopiesP_total:
  assumes "\<And>H. f H = Some (g H)"
  shows "optionalCopiesP f k greedy ac lastState H = Some (optionalCopies g k greedy ac lastState H)"
  by (induction k arbitrary: lastState H) (simp_all add: assms Let_def split_beta)

lemma compileQuantifierP_total:
  assumes "\<And>H. f H = Some (g H)"
  shows "compileQuantifierP f mn mx greedy H = Some (compileQuantifier g mn mx greedy H)"
  by (cases mx)
     (simp_all add: compileQuantifierP_def compileQuantifier_def Let_def split_beta assms
        mandatoryCopiesP_total [of f g, OF assms] optionalCopiesP_total [of f g, OF assms])

lemma compileAlternationP_total:
  assumes "\<And>H. l H = Some (l' H)" "\<And>H. r H = Some (r' H)"
  shows "compileAlternationP l r H = Some (compileAlternation l' r' H)"
  by (simp add: compileAlternationP_def compileAlternation_def Let_def split_beta assms)

lemma compileNodeP_total: "compileNodeP node H = Some (compileNode node H)"
proof (induction node arbitrary: H)
  case (PredicateNode fn)
  show ?case by (subst compileNodeP.simps) simp
next
  case (SequenceNode children)
  show ?case
    using compileSequenceP_total [of children compileNodeP compileNode H] SequenceNode
    by (subst compileNodeP.simps) simp
next
  case (QuantifierNode child mn mx greedy)
  show ?case
    using compileQuantifierP_total [of "compileNodeP child" "compileNode child"] QuantifierNode
    by (subst compileNodeP.simps) simp
next
  case (AlternationNode left right)
  show ?case
    using compileAlternationP_total [of "compileNodeP left" "compileNode left"
        "compileNodeP right" "compileNode right"] AlternationNode
    by (subst compileNodeP.simps) simp
next
  case (AnchorNode pos)
  show ?case by (subst compileNodeP.simps) simp
next
  case AnyNode
  show ?case by (subst compileNodeP.simps) simp
qed

lemma epsilonWhile_closure:
  "epsilonWhile H p n [] seeds = Some (epsilonClosure H seeds p n)"
  by (simp add: epsilonWhile_eq epsilonClosure_def)

lemma simulateWhile_total:
  "simulateWhile H nfa sq off greedy i active l0 = Some (simulateLoop H nfa sq off greedy i active l0)"
proof (induction "length sq - i" arbitrary: i active l0 greedy)
  case 0
  then show ?case
    by (subst simulateWhile.simps, subst simulateLoop_unfold) simp
next
  case (Suc k)
  then have k: "k = length sq - Suc i" and inside: "i < length sq" by simp_all
  note IH = Suc.hyps(1) [OF k]
  show ?case
    by (subst simulateWhile.simps, subst simulateLoop_unfold)
       (simp add: inside epsilonWhile_closure IH)
qed

lemma simulateP_total: "simulateP H nfa sq off greedy = Some (simulate H nfa sq off greedy)"
  by (simp add: simulateP_def simulate_def epsilonWhile_closure simulateWhile_total Let_def)

lemma findAllWhile_total:
  "findAllWhile H nfa sq greedy pos rs = Some (findAllLoop H nfa sq greedy pos rs)"
proof (induction "length sq - pos" arbitrary: pos rs rule: less_induct)
  case less
  show ?case
  proof (cases "pos < length sq")
    case False
    then show ?thesis
      by (subst findAllWhile.simps, subst findAllLoop_unfold) simp
  next
    case True
    show ?thesis
    proof (cases "positiveAt H nfa sq greedy pos")
      case pos: True
      let ?m = "matchLength (simulate H nfa sq pos greedy)"
      have "0 < ?m" using pos by (simp add: positiveAt_def)
      then have dec: "length sq - (pos + ?m) < length sq - pos" using True by simp
      show ?thesis
        using True pos less [OF dec, of "rs @ [matchAt H nfa sq greedy pos]"]
        by (subst findAllWhile.simps, subst findAllLoop_unfold)
           (simp add: simulateP_total positiveAt_def matchAt_def)
    next
      case False
      have dec: "length sq - Suc pos < length sq - pos" using True by simp
      show ?thesis
        using True False less [OF dec, of rs]
        by (subst findAllWhile.simps, subst findAllLoop_unfold)
           (auto simp: simulateP_total positiveAt_def)
    qed
  qed
qed

lemma findFirstWhile_total:
  "findFirstWhile H nfa sq greedy pos = Some (findFirstLoop H nfa sq greedy pos)"
proof (induction "length sq - pos" arbitrary: pos)
  case 0
  then show ?case
    by (subst findFirstWhile.simps, subst findFirstLoop_unfold) simp
next
  case (Suc k)
  then have k: "k = length sq - Suc pos" and inside: "pos < length sq" by simp_all
  note IH = Suc.hyps(1) [OF k]
  show ?case
    by (subst findFirstWhile.simps, subst findFirstLoop_unfold)
       (auto simp: inside simulateP_total positiveAt_def matchAt_def IH)
qed

section \<open>Example patterns\<close>

text \<open>
  The pattern \<open>Pattern.where(isEven)\<close> of the tests, as the tree the builder produces for
  it, and its compiled automaton.
\<close>

definition isEven :: "int Predicate" where "isEven n = (n mod 2 = 0)"

definition evenPattern :: "int Predicate PatternNode" where
  "evenPattern = SequenceNode [PredicateNode isEven]"

lemmas compile_eval = compile_def compileSequence_def compileQuantifier_def compilePredicate_def
  compileAlternation_def compileAnchor_def createState_def pushEpsilons_def pushTransition_def
  setAnchorCheck_def

lemma compile_evenPattern:
  "compile evenPattern =
     (\<lparr>start = 0, accept = 1\<rparr>,
      [\<lparr>state_id = 0, epsilons = [], transitions = [\<lparr>predicate = isEven, target = 1\<rparr>],
         anchorCheck = None\<rparr>,
       \<lparr>state_id = 1, epsilons = [], transitions = [], anchorCheck = None\<rparr>])"
  by (simp add: evenPattern_def compile_eval)

lemma findAll_evenPattern:
  "findAll (snd (compile evenPattern)) (fst (compile evenPattern)) [1, 2, 3, 4, 5, 6] True =
     [\<lparr>start_idx = 1, end_idx = 1, data = [2]\<rparr>, \<lparr>start_idx = 3, end_idx = 3, data = [4]\<rparr>,
      \<lparr>start_idx = 5, end_idx = 5, data = [6]\<rparr>]"
  unfolding compile_evenPattern by code_simp

text \<open>
  A run of even numbers, \<open>Pattern.where(isEven).oneOrMore(greedy)\<close>, and the two modes of
  \<open>simulate\<close> on its automaton over \<open>[2, 4, 6, 3]\<close>.
\<close>

definition evenRun :: "bool \<Rightarrow> int Predicate PatternNode" where
  "evenRun greedy = SequenceNode [QuantifierNode (PredicateNode isEven) 1 \<infinity> greedy]"

lemma compile_evenRun:
  "compile (evenRun greedy) =
     (\<lparr>start = 0, accept = 1\<rparr>,
      [\<lparr>state_id = 0, epsilons = [2], transitions = [], anchorCheck = None\<rparr>,
       \<lparr>state_id = 1, epsilons = [], transitions = [], anchorCheck = None\<rparr>,
       \<lparr>state_id = 2, epsilons = [], transitions = [\<lparr>predicate = isEven, target = 3\<rparr>],
         anchorCheck = None\<rparr>,
       \<lparr>state_id = 3, epsilons = (if greedy then [4, 1] else [1, 4]), transitions = [],
         anchorCheck = None\<rparr>,
       \<lparr>state_id = 4, epsilons = [], transitions = [\<lparr>predicate = isEven, target = 5\<rparr>],
         anchorCheck = None\<rparr>,
       \<lparr>state_id = 5, epsilons = [3], transitions = [], anchorCheck = None\<rparr>])"
  by (simp add: evenRun_def compile_eval)

lemma simulate_evenRun:
  "simulate (snd (compile (evenRun True))) (fst (compile (evenRun True))) [2, 4, 6, 3] 0 False =
     \<lparr>matched = True, matchLength = 1\<rparr>"
  "simulate (snd (compile (evenRun True))) (fst (compile (evenRun True))) [2, 4, 6, 3] 0 True =
     \<lparr>matched = True, matchLength = 3\<rparr>"
  unfolding compile_evenRun by code_simp+

section \<open>Claims about the batch engine\<close>

text \<open>
  Claim C2.  Every result of \<open>findAll\<close> has \<open>end \<ge> start\<close>, lies inside the sequence,
  carries \<open>end - start + 1\<close> elements, at least one, and its data is the slice of the
  sequence from \<open>start\<close> to \<open>end\<close> inclusive; no match of length zero is returned.
\<close>

theorem findAll_match_shape:
  "\<forall>r\<in>set (findAll H nfa sq greedy).
     start_idx r \<le> end_idx r \<and> end_idx r < length sq \<and>
     length (data r) = end_idx r - start_idx r + 1 \<and> 1 \<le> length (data r) \<and>
     data r = slice sq (start_idx r) (end_idx r + 1) \<and>
     (\<forall>i<length (data r). data r ! i = sq ! (start_idx r + i))"
proof
  fix r assume "r \<in> set (findAll H nfa sq greedy)"
  then have r: "positiveAt H nfa sq greedy (start_idx r)" "r = matchAt H nfa sq greedy (start_idx r)"
    using findFrom_members [of r H nfa sq greedy 0] by (simp_all add: findAll_def)
  note shape = matchAt_shape [OF r(1), folded r(2)]
  have nth: "data r ! i = sq ! (start_idx r + i)" if "i < length (data r)" for i
    using that shape(2,3) unfolding shape(4) slice_def by simp
  show "start_idx r \<le> end_idx r \<and> end_idx r < length sq \<and>
     length (data r) = end_idx r - start_idx r + 1 \<and> 1 \<le> length (data r) \<and>
     data r = slice sq (start_idx r) (end_idx r + 1) \<and>
     (\<forall>i<length (data r). data r ! i = sq ! (start_idx r + i))"
    using shape nth by simp
qed

theorem findAll_match_shape_witness:
  "\<lparr>start_idx = 3, end_idx = 3, data = [4]\<rparr>
     \<in> set (findAll (snd (compile evenPattern)) (fst (compile evenPattern)) [1, 2, 3, 4, 5, 6] True) \<and>
   length (data \<lparr>start_idx = 3, end_idx = 3, data = [4 :: int]\<rparr>) = 3 - 3 + 1 \<and>
   data \<lparr>start_idx = 3, end_idx = 3, data = [4 :: int]\<rparr> = slice [1, 2, 3, 4, 5, 6] 3 (3 + 1)"
  using findAll_match_shape [of "snd (compile evenPattern)" "fst (compile evenPattern)"
      "[1, 2, 3, 4, 5, 6]" True]
  unfolding findAll_evenPattern by (simp add: slice_def)

text \<open>
  Claim C3.  The results of \<open>findAll\<close> are strictly ordered by start index and do not
  overlap (an earlier result ends before a later one starts).  The scan resumes at
  \<open>start + length\<close> after a match of positive length and one position further after
  an attempt that fails or yields length zero: every result is the positive match of the
  attempt at its start, and every position whose attempt would yield a positive match is
  covered by a result.
\<close>

theorem findAll_ordered_disjoint:
  "(\<forall>i j. i < j \<and> j < length (findAll H nfa sq greedy) \<longrightarrow>
      start_idx (findAll H nfa sq greedy ! i) < start_idx (findAll H nfa sq greedy ! j) \<and>
      end_idx (findAll H nfa sq greedy ! i) < start_idx (findAll H nfa sq greedy ! j)) \<and>
   findAllLoop H nfa sq greedy pos results =
     (if pos < length sq then
        (if positiveAt H nfa sq greedy pos
         then findAllLoop H nfa sq greedy (pos + matchLength (simulate H nfa sq pos greedy))
                (results @ [matchAt H nfa sq greedy pos])
         else findAllLoop H nfa sq greedy (pos + 1) results)
      else results) \<and>
   (\<forall>r\<in>set (findAll H nfa sq greedy).
      positiveAt H nfa sq greedy (start_idx r) \<and>
      end_idx r + 1 = start_idx r + matchLength (simulate H nfa sq (start_idx r) greedy)) \<and>
   (\<forall>p<length sq. positiveAt H nfa sq greedy p \<longrightarrow>
      (\<exists>r\<in>set (findAll H nfa sq greedy). start_idx r \<le> p \<and> p \<le> end_idx r))"
proof (intro conjI)
  let ?rs = "findAll H nfa sq greedy"
  have mem: "positiveAt H nfa sq greedy (start_idx r) \<and> r = matchAt H nfa sq greedy (start_idx r)"
    if "r \<in> set ?rs" for r
    using findFrom_members [of r H nfa sq greedy 0] that by (simp add: findAll_def)
  have srt: "sorted_wrt (\<lambda>a b. end_idx a < start_idx b) ?rs"
    unfolding findAll_def by (rule findFrom_sorted)
  show "\<forall>i j. i < j \<and> j < length ?rs \<longrightarrow>
      start_idx (?rs ! i) < start_idx (?rs ! j) \<and> end_idx (?rs ! i) < start_idx (?rs ! j)"
  proof (intro allI impI)
    fix i j assume ij: "i < j \<and> j < length ?rs"
    then have e: "end_idx (?rs ! i) < start_idx (?rs ! j)"
      using srt by (simp add: sorted_wrt_iff_nth_less)
    have "?rs ! i \<in> set ?rs" using ij by simp
    from mem [OF this] have "start_idx (?rs ! i) \<le> end_idx (?rs ! i)"
      using matchAt_shape(1) [of H nfa sq greedy "start_idx (?rs ! i)"] by simp
    then show "start_idx (?rs ! i) < start_idx (?rs ! j) \<and> end_idx (?rs ! i) < start_idx (?rs ! j)"
      using e by simp
  qed
  show "findAllLoop H nfa sq greedy pos results =
     (if pos < length sq then
        (if positiveAt H nfa sq greedy pos
         then findAllLoop H nfa sq greedy (pos + matchLength (simulate H nfa sq pos greedy))
                (results @ [matchAt H nfa sq greedy pos])
         else findAllLoop H nfa sq greedy (pos + 1) results)
      else results)"
    by (subst findAllLoop_unfold) simp
  show "\<forall>r\<in>set ?rs. positiveAt H nfa sq greedy (start_idx r) \<and>
      end_idx r + 1 = start_idx r + matchLength (simulate H nfa sq (start_idx r) greedy)"
  proof
    fix r assume "r \<in> set ?rs"
    from mem [OF this] have p: "positiveAt H nfa sq greedy (start_idx r)"
      and r: "r = matchAt H nfa sq greedy (start_idx r)" by simp_all
    from matchAt_shape(1,5) [OF p, folded r]
    show "positiveAt H nfa sq greedy (start_idx r) \<and>
      end_idx r + 1 = start_idx r + matchLength (simulate H nfa sq (start_idx r) greedy)"
      using p by simp
  qed
  show "\<forall>p<length sq. positiveAt H nfa sq greedy p \<longrightarrow>
      (\<exists>r\<in>set ?rs. start_idx r \<le> p \<and> p \<le> end_idx r)"
    unfolding findAll_def using findFrom_covers [of 0 _ sq H nfa greedy] by simp
qed

theorem findAll_ordered_disjoint_witness:
  "(0::nat) < 1 \<and>
   1 < length (findAll (snd (compile evenPattern)) (fst (compile evenPattern)) [1, 2, 3, 4, 5, 6] True) \<and>
   end_idx (findAll (snd (compile evenPattern)) (fst (compile evenPattern)) [1, 2, 3, 4, 5, 6] True ! 0)
     < start_idx (findAll (snd (compile evenPattern)) (fst (compile evenPattern)) [1, 2, 3, 4, 5, 6] True ! 1) \<and>
   positiveAt (snd (compile evenPattern)) (fst (compile evenPattern)) [1, 2, 3, 4, 5, 6] True 3"
  using findAll_ordered_disjoint [of "snd (compile evenPattern)" "fst (compile evenPattern)"
      "[1, 2, 3, 4, 5, 6]" True]
  unfolding findAll_evenPattern by simp

text \<open>
  Claim C8.  In lazy mode \<open>simulate\<close> returns the shortest candidate: length 0 at once if
  the accept state is in the initial closure, otherwise the length at the first index at
  which the accept state becomes active.  In greedy mode it returns the longest candidate.
  In both modes the attempt matches exactly when a candidate exists.
\<close>

theorem simulate_lazy_first_greedy_longest:
  "(accept nfa \<in> set (epsilonClosure H [start nfa] off (enat (length sq))) \<longrightarrow>
      simulate H nfa sq off False = \<lparr>matched = True, matchLength = 0\<rparr>) \<and>
   (matched (simulate H nfa sq off False) \<longleftrightarrow> (\<exists>k. candidate H nfa sq off k)) \<and>
   (matched (simulate H nfa sq off False) \<longrightarrow>
      candidate H nfa sq off (matchLength (simulate H nfa sq off False)) \<and>
      (\<forall>k. candidate H nfa sq off k \<longrightarrow> matchLength (simulate H nfa sq off False) \<le> k)) \<and>
   (matched (simulate H nfa sq off True) \<longleftrightarrow> (\<exists>k. candidate H nfa sq off k)) \<and>
   (matched (simulate H nfa sq off True) \<longrightarrow>
      candidate H nfa sq off (matchLength (simulate H nfa sq off True)) \<and>
      (\<forall>k. candidate H nfa sq off k \<longrightarrow> k \<le> matchLength (simulate H nfa sq off True))) \<and>
   (\<not> matched (simulate H nfa sq off greedy) \<longrightarrow> matchLength (simulate H nfa sq off greedy) = 0)"
  using simulate_spec [of H nfa sq off False] simulate_spec [of H nfa sq off True]
    simulate_spec [of H nfa sq off greedy]
  by (simp add: simulate_def Let_def)

theorem simulate_lazy_first_greedy_longest_witness:
  "matched (simulate (snd (compile (evenRun True))) (fst (compile (evenRun True))) [2, 4, 6, 3] 0 False) \<and>
   candidate (snd (compile (evenRun True))) (fst (compile (evenRun True))) [2, 4, 6, 3] 0 1 \<and>
   matched (simulate (snd (compile (evenRun True))) (fst (compile (evenRun True))) [2, 4, 6, 3] 0 True) \<and>
   candidate (snd (compile (evenRun True))) (fst (compile (evenRun True))) [2, 4, 6, 3] 0 3 \<and>
   (1::nat) \<le> 3"
  using simulate_lazy_first_greedy_longest
    [of "fst (compile (evenRun True))" "snd (compile (evenRun True))" 0 "[2, 4, 6, 3]"]
  unfolding simulate_evenRun by simp

text \<open>
  Claim C10.  \<open>Pattern.oneOf\<close> fails, at construction, exactly when it is given no
  alternative, and returns the left-nested alternation otherwise.  \<open>compile\<close>, \<open>simulate\<close>,
  \<open>findAll\<close>, \<open>findFirst\<close> and \<open>test\<close>, taken as partial functions that may fail to return,
  return on every tree, heap, automaton, sequence, offset and flag, with the value of the
  total functions used in this development.  A search that finds nothing returns the empty
  list, \<open>null\<close> or \<open>false\<close>, consistently, and a failed attempt of \<open>simulate\<close> reports
  length zero.
\<close>

theorem oneOf_only_failure:
  "(oneOf alternatives = Inl (Error ''Pattern.oneOf() requires at least one alternative'')
      \<longleftrightarrow> alternatives = []) \<and>
   (alternatives \<noteq> [] \<longrightarrow> (\<exists>node. oneOf alternatives = Inr node)) \<and>
   oneOf (alt # alts) = Inr (foldl (\<lambda>node alt. AlternationNode node (toNode alt)) (toNode alt) alts) \<and>
   compileP node = Some (compile node) \<and>
   simulateP H nfa sq off greedy = Some (simulate H nfa sq off greedy) \<and>
   findAllP H nfa sq greedy = Some (findAll H nfa sq greedy) \<and>
   findFirstP H nfa sq greedy = Some (findFirst H nfa sq greedy) \<and>
   testP H nfa sq greedy = Some (test H nfa sq greedy) \<and>
   findAll H nfa [] greedy = [] \<and>
   (findFirst H nfa sq greedy = None \<longleftrightarrow> findAll H nfa sq greedy = []) \<and>
   (test H nfa sq greedy \<longleftrightarrow> findAll H nfa sq greedy \<noteq> []) \<and>
   (\<not> matched (simulate H nfa sq off greedy) \<longrightarrow> matchLength (simulate H nfa sq off greedy) = 0)"
proof -
  have "findFirst H nfa sq greedy = None \<longleftrightarrow> findAll H nfa sq greedy = []"
    by (simp add: findFirst_def findAll_def findFirstLoop_findAllLoop split: list.splits)
  moreover have "findAll H nfa [] greedy = []"
    by (simp add: findAll_def findFrom_unfold)
  moreover have "\<not> matched (simulate H nfa sq off greedy) \<longrightarrow>
                 matchLength (simulate H nfa sq off greedy) = 0"
    using simulate_spec [of H nfa sq off greedy] by simp
  moreover have "compileP node = Some (compile node)"
    by (simp add: compileP_def compile_def compileNodeP_total)
  moreover have "findAllP H nfa sq greedy = Some (findAll H nfa sq greedy)"
    by (simp add: findAllP_def findAll_def findAllWhile_total)
  moreover have "findFirstP H nfa sq greedy = Some (findFirst H nfa sq greedy)"
    by (simp add: findFirstP_def findFirst_def findFirstWhile_total)
  moreover have "testP H nfa sq greedy = Some (test H nfa sq greedy)"
    by (simp add: testP_def test_def findFirstP_def findFirst_def findFirstWhile_total)
  ultimately show ?thesis by (simp add: oneOf_def test_def simulateP_total)
qed

theorem oneOf_only_failure_witness:
  "[AltPredicate isEven] \<noteq> [] \<and> oneOf [AltPredicate isEven] = Inr (PredicateNode isEven) \<and>
   compileP evenPattern = Some (compile evenPattern) \<and>
   simulateP (snd (compile evenPattern)) (fst (compile evenPattern)) [1] 0 True =
     Some \<lparr>matched = False, matchLength = 0\<rparr> \<and>
   matched (simulate (snd (compile evenPattern)) (fst (compile evenPattern)) [1] 0 True) = False \<and>
   matchLength (simulate (snd (compile evenPattern)) (fst (compile evenPattern)) [1] 0 True) = 0"
proof -
  have "simulate (snd (compile evenPattern)) (fst (compile evenPattern)) [1] 0 True =
        \<lparr>matched = False, matchLength = 0\<rparr>"
    unfolding compile_evenPattern by code_simp
  then show ?thesis
    using oneOf_only_failure [where alternatives = "[AltPredicate isEven]"
        and alt = "AltPredicate isEven" and alts = "[]" and node = evenPattern
        and H = "snd (compile evenPattern)" and nfa = "fst (compile evenPattern)"
        and greedy = True and sq = "[1]" and off = 0]
    by (simp add: toNode_def)
qed

section \<open>The compiler and the order of epsilon edges\<close>

lemma stateSim_refl [simp]: "stateSim s s"
  by (simp add: stateSim_def)

lemma heapSim_length: "heapSim H1 H2 \<Longrightarrow> length H1 = length H2"
  by (simp add: heapSim_def list_all2_lengthD)

lemma heapSim_nth: "heapSim H1 H2 \<Longrightarrow> i < length H1 \<Longrightarrow> stateSim (H1 ! i) (H2 ! i)"
  by (simp add: heapSim_def list_all2_nthD)

lemma heapSim_Nil [simp]: "heapSim [] []"
  by (simp add: heapSim_def)

lemma heapSim_sym: "heapSim H1 H2 \<Longrightarrow> heapSim H2 H1"
  by (auto simp: heapSim_def list_all2_conv_all_nth stateSim_def)

lemma heapSim_update:
  assumes "heapSim H1 H2" "s < length H1 \<Longrightarrow> stateSim x y"
  shows "heapSim (H1[s := x]) (H2[s := y])"
proof (cases "s < length H1")
  case True
  then show ?thesis using assms unfolding heapSim_def by (intro list_all2_update_cong) simp_all
next
  case False
  then have "H1[s := x] = H1" "H2[s := y] = H2"
    using heapSim_length [OF assms(1)] by (simp_all add: list_update_beyond not_less)
  then show ?thesis using assms(1) by simp
qed

lemma createState_sim:
  assumes "heapSim H1 H2"
  shows "fst (createState H1) = fst (createState H2)"
    and "heapSim (snd (createState H1)) (snd (createState H2))"
  using assms heapSim_length [OF assms]
  by (auto simp: createState_def heapSim_def stateSim_def intro!: list_all2_appendI)

lemma pushEpsilons_sim:
  assumes "heapSim H1 H2" "set ts1 = set ts2"
  shows "heapSim (pushEpsilons s ts1 H1) (pushEpsilons s ts2 H2)"
  unfolding pushEpsilons_def
  using assms(2) heapSim_nth [OF assms(1), of s]
  by (intro heapSim_update [OF assms(1)]) (simp add: stateSim_def)

lemma pushTransition_sim:
  assumes "heapSim H1 H2"
  shows "heapSim (pushTransition s tr H1) (pushTransition s tr H2)"
  unfolding pushTransition_def
  using heapSim_nth [OF assms(1), of s]
  by (intro heapSim_update [OF assms(1)]) (simp add: stateSim_def)

lemma setAnchorCheck_sim:
  assumes "heapSim H1 H2"
  shows "heapSim (setAnchorCheck s chk H1) (setAnchorCheck s chk H2)"
  unfolding setAnchorCheck_def
  using heapSim_nth [OF assms(1), of s]
  by (intro heapSim_update [OF assms(1)]) (simp add: stateSim_def)

lemma compSimD:
  assumes "compSim c1 c2" "heapSim H1 H2"
  shows "fst (c1 H1) = fst (c2 H2)" and "heapSim (snd (c1 H1)) (snd (c2 H2))"
  using assms by (simp_all add: compSim_def)

lemma compilePredicate_sim: "compSim (compilePredicate fn) (compilePredicate fn)"
  unfolding compSim_def
proof (intro allI impI)
  fix H1 H2 :: "'a heap" assume h: "heapSim H1 H2"
  note a = createState_sim [OF h]
  note b = createState_sim [OF a(2)]
  show "fst (compilePredicate fn H1) = fst (compilePredicate fn H2) \<and>
        heapSim (snd (compilePredicate fn H1)) (snd (compilePredicate fn H2))"
    using a(1) b(1) pushTransition_sim [OF b(2)]
    by (simp add: compilePredicate_def Let_def split_beta)
qed

lemma compileAnchor_sim: "compSim (compileAnchor pos) (compileAnchor pos)"
  unfolding compSim_def
proof (intro allI impI)
  fix H1 H2 :: "'a heap" assume h: "heapSim H1 H2"
  note a = createState_sim [OF h]
  note b = createState_sim [OF a(2)]
  note c = setAnchorCheck_sim [OF b(2)]
  show "fst (compileAnchor pos H1) = fst (compileAnchor pos H2) \<and>
        heapSim (snd (compileAnchor pos H1)) (snd (compileAnchor pos H2))"
    using a(1) b(1) pushEpsilons_sim [OF c refl]
    by (simp add: compileAnchor_def Let_def split_beta)
qed

lemma compileAlternation_sim:
  assumes l: "compSim l1 l2" and r: "compSim r1 r2"
  shows "compSim (compileAlternation l1 r1) (compileAlternation l2 r2)"
  unfolding compSim_def
proof (intro allI impI)
  fix H1 H2 :: "'a heap" assume h: "heapSim H1 H2"
  note a = createState_sim [OF h]
  note b = createState_sim [OF a(2)]
  note c = compSimD [OF l b(2)]
  note d = compSimD [OF r c(2)]
  note e = pushEpsilons_sim [OF d(2) refl]
  note f = pushEpsilons_sim [OF e refl]
  note g = pushEpsilons_sim [OF f refl]
  show "fst (compileAlternation l1 r1 H1) = fst (compileAlternation l2 r2 H2) \<and>
        heapSim (snd (compileAlternation l1 r1 H1)) (snd (compileAlternation l2 r2 H2))"
    using a(1) b(1) c(1) d(1) g
    by (simp add: compileAlternation_def Let_def split_beta)
qed

lemma mandatoryCopies_sim:
  assumes c: "compSim c1 c2"
  shows "heapSim H1 H2 \<Longrightarrow>
         fst (mandatoryCopies c1 k lastState H1) = fst (mandatoryCopies c2 k lastState H2) \<and>
         heapSim (snd (mandatoryCopies c1 k lastState H1)) (snd (mandatoryCopies c2 k lastState H2))"
proof (induction k arbitrary: lastState H1 H2)
  case 0
  then show ?case by simp
next
  case (Suc k)
  note a = compSimD [OF c Suc.prems]
  note b = pushEpsilons_sim [OF a(2) refl]
  show ?case using Suc.IH [OF b] a(1) by (simp add: Let_def split_beta)
qed

lemma optionalCopies_sim:
  assumes c: "compSim c1 c2"
  shows "heapSim H1 H2 \<Longrightarrow>
         fst (optionalCopies c1 k g1 ac lastState H1) = fst (optionalCopies c2 k g2 ac lastState H2) \<and>
         heapSim (snd (optionalCopies c1 k g1 ac lastState H1))
                 (snd (optionalCopies c2 k g2 ac lastState H2))"
proof (induction k arbitrary: lastState H1 H2)
  case 0
  then show ?case by simp
next
  case (Suc k)
  note a = compSimD [OF c Suc.prems]
  have "set (if g1 then [start (fst (c1 H1)), ac] else [ac, start (fst (c1 H1))]) =
        set (if g2 then [start (fst (c2 H2)), ac] else [ac, start (fst (c2 H2))])"
    using a(1) by auto
  note b = pushEpsilons_sim [OF a(2) this]
  show ?case using Suc.IH [OF b] a(1) by (simp add: Let_def split_beta)
qed

lemma compileQuantifier_sim:
  assumes c: "compSim c1 c2"
  shows "compSim (compileQuantifier c1 mn mx g1) (compileQuantifier c2 mn mx g2)"
  unfolding compSim_def
proof (intro allI impI)
  fix H1 H2 :: "'a heap" assume h: "heapSim H1 H2"
  note a = createState_sim [OF h]
  note b = createState_sim [OF a(2)]
  have m: "fst (mandatoryCopies c1 mn (fst (createState H1)) (snd (createState (snd (createState H1))))) =
           fst (mandatoryCopies c2 mn (fst (createState H2)) (snd (createState (snd (createState H2)))))"
          "heapSim (snd (mandatoryCopies c1 mn (fst (createState H1)) (snd (createState (snd (createState H1))))))
             (snd (mandatoryCopies c2 mn (fst (createState H2)) (snd (createState (snd (createState H2))))))"
    using mandatoryCopies_sim [OF c b(2), of mn "fst (createState H1)"] a(1) by simp_all
  show "fst (compileQuantifier c1 mn mx g1 H1) = fst (compileQuantifier c2 mn mx g2 H2) \<and>
        heapSim (snd (compileQuantifier c1 mn mx g1 H1)) (snd (compileQuantifier c2 mn mx g2 H2))"
  proof (cases mx)
    case (enat k)
    note o = optionalCopies_sim [OF c m(2), of "k - mn" g1 "fst (createState (snd (createState H1)))"
        "fst (mandatoryCopies c1 mn (fst (createState H1)) (snd (createState (snd (createState H1)))))" g2]
    note p = pushEpsilons_sim [OF conjunct2 [OF o] refl]
    show ?thesis using a(1) b(1) m(1) o p enat
      by (simp add: compileQuantifier_def Let_def split_beta)
  next
    case infinity
    note l = compSimD [OF c m(2)]
    have "set (if g1 then [start (fst (c1 (snd (mandatoryCopies c1 mn (fst (createState H1))
                 (snd (createState (snd (createState H1)))))))),
                 fst (createState (snd (createState H1)))]
               else [fst (createState (snd (createState H1))),
                 start (fst (c1 (snd (mandatoryCopies c1 mn (fst (createState H1))
                 (snd (createState (snd (createState H1))))))))]) =
          set (if g2 then [start (fst (c2 (snd (mandatoryCopies c2 mn (fst (createState H2))
                 (snd (createState (snd (createState H2)))))))),
                 fst (createState (snd (createState H2)))]
               else [fst (createState (snd (createState H2))),
                 start (fst (c2 (snd (mandatoryCopies c2 mn (fst (createState H2))
                 (snd (createState (snd (createState H2))))))))])"
      using l(1) b(1) by auto
    note p = pushEpsilons_sim [OF l(2) this]
    note q = pushEpsilons_sim [OF p refl]
    show ?thesis using a(1) b(1) m(1) l(1) q infinity
      by (simp add: compileQuantifier_def Let_def split_beta)
  qed
qed

lemma compileAll_sim:
  "list_all2 compSim cs1 cs2 \<Longrightarrow> heapSim H1 H2 \<Longrightarrow>
   fst (compileAll cs1 H1) = fst (compileAll cs2 H2) \<and>
   heapSim (snd (compileAll cs1 H1)) (snd (compileAll cs2 H2))"
proof (induction cs1 cs2 arbitrary: H1 H2 rule: list_all2_induct)
  case Nil
  then show ?case by simp
next
  case (Cons c1 cs1 c2 cs2)
  note a = compSimD [OF Cons.hyps(1) Cons.prems]
  show ?case using Cons.IH [OF a(2)] a(1) by (simp add: Let_def split_beta)
qed

lemma linkFragments_sim:
  "heapSim H1 H2 \<Longrightarrow> heapSim (linkFragments fs H1) (linkFragments fs H2)"
proof (induction fs H1 arbitrary: H2 rule: linkFragments.induct)
  case (1 f g fragments H)
  from 1(1) [OF pushEpsilons_sim [OF 1(2) refl]] show ?case by simp
qed simp_all

lemma compileSequence_sim:
  assumes "list_all2 compSim cs1 cs2"
  shows "compSim (compileSequence cs1) (compileSequence cs2)"
  unfolding compSim_def
proof (intro allI impI)
  fix H1 H2 :: "'a heap" assume h: "heapSim H1 H2"
  show "fst (compileSequence cs1 H1) = fst (compileSequence cs2 H2) \<and>
        heapSim (snd (compileSequence cs1 H1)) (snd (compileSequence cs2 H2))"
  proof (cases cs1)
    case Nil
    then have cs2: "cs2 = []" using assms by simp
    note a = createState_sim [OF h]
    note b = createState_sim [OF a(2)]
    show ?thesis using a(1) b(1) pushEpsilons_sim [OF b(2) refl] Nil cs2
      by (simp add: compileSequence_def Let_def split_beta)
  next
    case (Cons c1 rest1)
    then obtain c2 rest2 where cs2: "cs2 = c2 # rest2" and c: "compSim c1 c2"
      and rest: "list_all2 compSim rest1 rest2"
      using assms by (auto simp: list_all2_Cons1)
    show ?thesis
    proof (cases rest1)
      case Nil
      then have "rest2 = []" using rest by simp
      then show ?thesis using Cons Nil cs2 compSimD [OF c h]
        by (simp add: compileSequence_def)
    next
      case inner: (Cons d1 more1)
      then obtain d2 more2 where rest2: "rest2 = d2 # more2"
        using rest by (auto simp: list_all2_Cons1)
      note a = compileAll_sim [OF assms h]
      show ?thesis
        using a linkFragments_sim [OF conjunct2 [OF a], of "fst (compileAll cs1 H1)"]
          Cons inner cs2 rest2
        by (simp add: compileSequence_def Let_def split_beta del: compileAll.simps)
    qed
  qed
qed

lemma compileNode_sim_refl: "compSim (compileNode t) (compileNode t)"
proof (induction t)
  case (SequenceNode children)
  then have "list_all2 compSim (map compileNode children) (map compileNode children)"
    by (simp add: list_all2_map1 list_all2_map2 list_all2_same)
  then show ?case by (simp add: compileSequence_sim)
qed (simp_all add: compilePredicate_sim compileAnchor_sim compileAlternation_sim
       compileQuantifier_sim)

lemma compileNode_flipOne: "flipOne t1 t2 \<Longrightarrow> compSim (compileNode t1) (compileNode t2)"
proof (induction rule: flipOne.induct)
  case (inSequence child child' before after)
  have "list_all2 compSim (map compileNode before) (map compileNode before)"
    "list_all2 compSim (map compileNode after) (map compileNode after)"
    by (simp_all add: list_all2_map1 list_all2_map2 list_all2_same compileNode_sim_refl)
  then have "list_all2 compSim (map compileNode (before @ child # after))
                               (map compileNode (before @ child' # after))"
    using inSequence.IH by (auto intro!: list_all2_appendI)
  then show ?case by (simp add: compileSequence_sim del: map_append)
qed (simp_all add: compileQuantifier_sim compileNode_sim_refl compileAlternation_sim)

lemma flipOne_not_greedy: "flipOne t1 t2 \<Longrightarrow> \<not> isGreedy t2"
  by (induction rule: flipOne.induct) simp_all

lemma compile_flipOne:
  assumes "flipOne t1 t2"
  shows "fst (compile t1) = fst (compile t2)" "heapSim (snd (compile t1)) (snd (compile t2))"
  using compSimD [OF compileNode_flipOne [OF assms] heapSim_Nil]
  by (simp_all add: compile_def)

lemma deref_sim: "heapSim H1 H2 \<Longrightarrow> stateSim (deref H1 r) (deref H2 r)"
  using heapSim_length [of H1 H2] heapSim_nth [of H1 H2 r] by (simp add: deref_def)

lemma anchorFails_sim: "heapSim H1 H2 \<Longrightarrow> anchorFails H1 s p n = anchorFails H2 s p n"
  using deref_sim [of H1 H2 s] by (simp add: anchorFails_def stateSim_def)

lemma reachable_sim_sub:
  assumes "heapSim H1 H2"
  shows "s \<in> reachable H1 p n S \<Longrightarrow> s \<in> reachable H2 p n S"
proof (induction rule: reachable.induct)
  case (seed s)
  then show ?case using anchorFails_sim [OF assms] by (auto intro: reachable.seed)
next
  case (step s t)
  have "t \<in> set (epsilons (deref H2 s))"
    using step.hyps deref_sim [OF assms, of s] by (simp add: stateSim_def)
  then show ?case using step anchorFails_sim [OF assms] by (auto intro: reachable.step)
qed

lemma epsilonClosure_sim:
  assumes "heapSim H1 H2" "set seeds1 = set seeds2"
  shows "set (epsilonClosure H1 seeds1 p n) = set (epsilonClosure H2 seeds2 p n)"
proof -
  have "reachable H1 p n (set seeds2) \<subseteq> reachable H2 p n (set seeds2)"
    using reachable_sim_sub [OF assms(1)] by (rule subsetI)
  moreover have "reachable H2 p n (set seeds2) \<subseteq> reachable H1 p n (set seeds2)"
    using reachable_sim_sub [OF heapSim_sym [OF assms(1)]] by (rule subsetI)
  ultimately show ?thesis unfolding epsilonClosure_reachable assms(2) by (rule equalityI)
qed

lemma set_nextStates_inner:
  "set (foldl (\<lambda>next transition.
                 if predicate transition x then set_add next (target transition) else next)
          acc trs) =
   set acc \<union> {target tr | tr. tr \<in> set trs \<and> predicate tr x}"
  by (induction trs arbitrary: acc) (auto simp: set_add_def)

lemma set_nextStates_outer:
  "set (foldl (\<lambda>next state.
              foldl (\<lambda>next transition.
                       if predicate transition x then set_add next (target transition)
                       else next)
                next (transitions (deref H state)))
       acc active) =
   set acc \<union> {target tr | s tr. s \<in> set active \<and> tr \<in> set (transitions (deref H s)) \<and>
                               predicate tr x}"
proof (induction active arbitrary: acc)
  case Nil
  show ?case by simp
next
  case (Cons a active)
  show ?case unfolding foldl_Cons Cons.IH set_nextStates_inner by auto
qed

lemma set_nextStates:
  "set (nextStates H active x) =
   {target tr | s tr. s \<in> set active \<and> tr \<in> set (transitions (deref H s)) \<and> predicate tr x}"
  unfolding nextStates_def set_nextStates_outer by simp

lemma nextStates_sim:
  assumes "heapSim H1 H2" "set a1 = set a2"
  shows "set (nextStates H1 a1 x) = set (nextStates H2 a2 x)"
proof -
  have "transitions (deref H1 s) = transitions (deref H2 s)" for s
    using deref_sim [OF assms(1), of s] by (simp add: stateSim_def)
  then show ?thesis using assms(2) by (simp add: set_nextStates)
qed

lemma activeAt_sim:
  assumes "heapSim H1 H2"
  shows "set (activeAt H1 nfa sq off k) = set (activeAt H2 nfa sq off k)"
proof (induction k)
  case 0
  show ?case by (simp add: activeAt.simps epsilonClosure_sim [OF assms])
next
  case (Suc k)
  show ?case
    unfolding activeAt.simps
    by (rule epsilonClosure_sim [OF assms nextStates_sim [OF assms Suc]])
qed

lemma candidate_sim:
  "heapSim H1 H2 \<Longrightarrow> candidate H1 nfa sq off k = candidate H2 nfa sq off k"
  by (simp add: candidate_def activeAt_sim)

lemma simulate_sim:
  assumes "heapSim H1 H2"
  shows "simulate H1 nfa sq off greedy = simulate H2 nfa sq off greedy"
proof -
  note c = candidate_sim [OF assms, of nfa sq off]
  note s1 = simulate_spec [of H1 nfa sq off greedy, unfolded c]
  note s2 = simulate_spec [of H2 nfa sq off greedy]
  have m: "matched (simulate H1 nfa sq off greedy) = matched (simulate H2 nfa sq off greedy)"
    using s1 s2 by simp
  have "matchLength (simulate H1 nfa sq off greedy) = matchLength (simulate H2 nfa sq off greedy)"
  proof (cases "matched (simulate H1 nfa sq off greedy)")
    case False
    then show ?thesis using s1 s2 m by simp
  next
    case True
    then have "candidate H2 nfa sq off (matchLength (simulate H1 nfa sq off greedy))"
      "candidate H2 nfa sq off (matchLength (simulate H2 nfa sq off greedy))"
      using s1 s2 m by simp_all
    then show ?thesis using s1 s2 m True by (cases greedy) (auto intro: le_antisym)
  qed
  then show ?thesis using m by simp
qed

lemma simulate_lazy_le:
  assumes "matched (simulate H nfa sq off greedy)"
  shows "matched (simulate H nfa sq off False)"
    and "matchLength (simulate H nfa sq off False) \<le> matchLength (simulate H nfa sq off greedy)"
proof -
  have c: "candidate H nfa sq off (matchLength (simulate H nfa sq off greedy))"
    using simulate_spec [of H nfa sq off greedy] assms by simp
  then show m: "matched (simulate H nfa sq off False)"
    using simulate_spec [of H nfa sq off False] by auto
  show "matchLength (simulate H nfa sq off False) \<le> matchLength (simulate H nfa sq off greedy)"
    using simulate_spec [of H nfa sq off False] m c by simp
qed

text \<open>
  For trees of pure predicates: the tree with one quantifier greedy and the tree with that
  flag cleared compile to automata that \<open>simulate\<close> cannot tell apart.
\<close>

lemma greedy_at_least_lazy_pure:
  assumes "flipOne treeG treeL"
  shows "(matched (simulate (snd (compile treeG)) (fst (compile treeG)) sq off (isGreedy treeG)) \<and>
          matched (simulate (snd (compile treeL)) (fst (compile treeL)) sq off (isGreedy treeL)) \<longrightarrow>
            matchLength (simulate (snd (compile treeL)) (fst (compile treeL)) sq off (isGreedy treeL))
              \<le> matchLength (simulate (snd (compile treeG)) (fst (compile treeG)) sq off (isGreedy treeG))) \<and>
         (matched (simulate (snd (compile treeG)) (fst (compile treeG)) sq off True) \<and>
          matched (simulate (snd (compile treeL)) (fst (compile treeL)) sq off False) \<longrightarrow>
            matchLength (simulate (snd (compile treeL)) (fst (compile treeL)) sq off False)
              \<le> matchLength (simulate (snd (compile treeG)) (fst (compile treeG)) sq off True)) \<and>
         simulate (snd (compile treeL)) (fst (compile treeL)) sq off greedy =
           simulate (snd (compile treeG)) (fst (compile treeG)) sq off greedy"
proof -
  note c = compile_flipOne [OF assms]
  have same: "simulate (snd (compile treeL)) (fst (compile treeL)) sq off g =
              simulate (snd (compile treeG)) (fst (compile treeG)) sq off g" for g
    using simulate_sim [OF c(2), of "fst (compile treeG)" sq off g] c(1) by simp
  have lazy: "isGreedy treeL = False" using flipOne_not_greedy [OF assms] by simp
  show ?thesis
    unfolding lazy same
    using simulate_lazy_le [of "snd (compile treeG)" "fst (compile treeG)" sq off "isGreedy treeG"]
      simulate_lazy_le [of "snd (compile treeG)" "fst (compile treeG)" sq off True]
    by simp
qed

section \<open>Predicates with side effects\<close>

text \<open>
  A predicate of the source is an arbitrary closure: it may read and mutate state it has
  captured.  Such a predicate takes the element and the captured state and returns its
  verdict with the new state.  \<open>simulate\<close> calls the predicates in the iteration order of
  the active set, one transition after the other; here that order threads the state.  The
  compiler is the one above, except that \<open>any\<close> compiles to the predicate that accepts
  and leaves the state alone.
\<close>

type_synonym ('a, 'w) StatefulPredicate = "'a \<Rightarrow> 'w \<Rightarrow> bool \<times> 'w"

definition nextStatesS ::
  "('a, 'w) StatefulPredicate heap \<Rightarrow> nat list \<Rightarrow> 'a \<Rightarrow> 'w \<Rightarrow> nat list \<times> 'w" where
  "nextStatesS H active element w =
     foldl (\<lambda>(next, w) state.
              foldl (\<lambda>(next, w) transition.
                       let (ok, w1) = predicate transition element w in
                       (if ok then set_add next (target transition) else next, w1))
                (next, w) (transitions (deref H state)))
       ([], w) active"

function simulateLoopS ::
  "('a, 'w) StatefulPredicate heap \<Rightarrow> NFA \<Rightarrow> 'a list \<Rightarrow> nat \<Rightarrow> bool \<Rightarrow> nat \<Rightarrow> nat list \<Rightarrow> int \<Rightarrow>
   'w \<Rightarrow> int \<times> 'w" where
  "simulateLoopS H nfa sequence offset greedy i active lastAcceptLength w =
     (if i < length sequence then
        let element = sequence ! i;
            nw = nextStatesS H active element w;
            active1 = epsilonClosure H (fst nw) (i + 1) (enat (length sequence)) in
        if active1 = [] then (lastAcceptLength, snd nw)
        else if accept nfa \<in> set active1 then
          let lastAcceptLength1 = int i - int offset + 1 in
          if \<not> greedy then (lastAcceptLength1, snd nw)
          else simulateLoopS H nfa sequence offset greedy (i + 1) active1 lastAcceptLength1 (snd nw)
        else simulateLoopS H nfa sequence offset greedy (i + 1) active1 lastAcceptLength (snd nw)
      else (lastAcceptLength, w))"
  by pat_completeness auto
termination simulateLoopS
  by (relation "measure (\<lambda>(H, nfa, sequence, offset, greedy, i, active, l, w). length sequence - i)")
     auto

declare simulateLoopS.simps [simp del]

definition simulateS ::
  "('a, 'w) StatefulPredicate heap \<Rightarrow> NFA \<Rightarrow> 'a list \<Rightarrow> nat \<Rightarrow> bool \<Rightarrow> 'w \<Rightarrow> SimResult \<times> 'w" where
  "simulateS H nfa sequence offset greedy w =
     (let active = epsilonClosure H [start nfa] offset (enat (length sequence));
          lastAcceptLength = (if accept nfa \<in> set active then 0 else - 1 :: int) in
      if \<not> greedy \<and> lastAcceptLength \<ge> 0 then (\<lparr>matched = True, matchLength = 0\<rparr>, w)
      else
        let lw = simulateLoopS H nfa sequence offset greedy offset active lastAcceptLength w in
        (\<lparr>matched = (fst lw \<ge> 0), matchLength = nat (max (fst lw) 0)\<rparr>, snd lw))"

fun compileNodeS ::
  "('a, 'w) StatefulPredicate PatternNode \<Rightarrow> ('a, 'w) StatefulPredicate compiler" where
  "compileNodeS (PredicateNode fn) = compilePredicate fn"
| "compileNodeS (SequenceNode children) = compileSequence (map compileNodeS children)"
| "compileNodeS (QuantifierNode child mn mx greedy) =
     compileQuantifier (compileNodeS child) mn mx greedy"
| "compileNodeS (AlternationNode left right) =
     compileAlternation (compileNodeS left) (compileNodeS right)"
| "compileNodeS (AnchorNode pos) = compileAnchor pos"
| "compileNodeS AnyNode = compilePredicate (\<lambda>element w. (True, w))"

definition compileS ::
  "('a, 'w) StatefulPredicate PatternNode \<Rightarrow> NFA \<times> ('a, 'w) StatefulPredicate heap" where
  "compileS node = compileNodeS node []"

text \<open>
  A predicate is quiet when a call leaves the captured state as it was.  Under a fixed
  state a heap of quiet predicates is a heap of pure ones: \<open>purify w H\<close>.
\<close>

definition quiet :: "('a, 'w) StatefulPredicate \<Rightarrow> bool" where
  "quiet p \<longleftrightarrow> (\<forall>x w. snd (p x w) = w)"

definition heapAll :: "('p \<Rightarrow> bool) \<Rightarrow> 'p heap \<Rightarrow> bool" where
  "heapAll P H \<longleftrightarrow> (\<forall>st\<in>set H. \<forall>tr\<in>set (transitions st). P (predicate tr))"

definition keeps :: "('p \<Rightarrow> bool) \<Rightarrow> 'p compiler \<Rightarrow> bool" where
  "keeps P c \<longleftrightarrow> (\<forall>H. heapAll P H \<longrightarrow> heapAll P (snd (c H)))"

definition purifyState :: "'w \<Rightarrow> ('a, 'w) StatefulPredicate NFAState \<Rightarrow> 'a Predicate NFAState" where
  "purifyState w st =
     \<lparr>state_id = state_id st, epsilons = epsilons st,
      transitions = map (\<lambda>tr. \<lparr>predicate = (\<lambda>x. fst (predicate tr x w)), target = target tr\<rparr>)
                      (transitions st),
      anchorCheck = anchorCheck st\<rparr>"

definition purify :: "'w \<Rightarrow> ('a, 'w) StatefulPredicate heap \<Rightarrow> 'a Predicate heap" where
  "purify w H = map (purifyState w) H"

text \<open>
  Two predicates over a captured flag, in the source
  \<open>let seenA = false\<close>,
  \<open>const A = n => { seenA = true; return true }\<close> and
  \<open>const B = n => { const r = !seenA; seenA = false; return r }\<close>,
  and the pattern \<open>Pattern.where(A).optional(greedy).followedBy(B)\<close>.
\<close>

definition setsFlag :: "(int, bool) StatefulPredicate" where
  "setsFlag n seenA = (True, True)"

definition clearsFlag :: "(int, bool) StatefulPredicate" where
  "clearsFlag n seenA = (\<not> seenA, False)"

definition flagPattern :: "bool \<Rightarrow> (int, bool) StatefulPredicate PatternNode" where
  "flagPattern greedy =
     SequenceNode [QuantifierNode (PredicateNode setsFlag) 0 (enat 1) greedy,
                   PredicateNode clearsFlag]"

text \<open>
  A run of even numbers with a predicate that leaves the captured state alone.
\<close>

definition quietEven :: "(int, bool) StatefulPredicate" where
  "quietEven n w = (isEven n, w)"

definition evenRunS :: "bool \<Rightarrow> (int, bool) StatefulPredicate PatternNode" where
  "evenRunS greedy = SequenceNode [QuantifierNode (PredicateNode quietEven) 1 \<infinity> greedy]"

section \<open>Properties of the engine with side effects\<close>

lemma compileS_flagPattern:
  "compileS (flagPattern greedy) =
     (\<lparr>start = 0, accept = 5\<rparr>,
      [\<lparr>state_id = 0, epsilons = (if greedy then [2, 1] else [1, 2]), transitions = [],
         anchorCheck = None\<rparr>,
       \<lparr>state_id = 1, epsilons = [4], transitions = [], anchorCheck = None\<rparr>,
       \<lparr>state_id = 2, epsilons = [], transitions = [\<lparr>predicate = setsFlag, target = 3\<rparr>],
         anchorCheck = None\<rparr>,
       \<lparr>state_id = 3, epsilons = [1], transitions = [], anchorCheck = None\<rparr>,
       \<lparr>state_id = 4, epsilons = [], transitions = [\<lparr>predicate = clearsFlag, target = 5\<rparr>],
         anchorCheck = None\<rparr>,
       \<lparr>state_id = 5, epsilons = [], transitions = [], anchorCheck = None\<rparr>])"
  by (simp add: flagPattern_def compileS_def compile_eval one_enat_def [symmetric])

lemma simulateS_flagPattern:
  "simulateS (snd (compileS (flagPattern True))) (fst (compileS (flagPattern True))) [1, 2] 0
     (isGreedy (flagPattern True)) False = (\<lparr>matched = True, matchLength = 1\<rparr>, False)"
  "simulateS (snd (compileS (flagPattern False))) (fst (compileS (flagPattern False))) [1, 2] 0
     (isGreedy (flagPattern False)) False = (\<lparr>matched = True, matchLength = 2\<rparr>, False)"
  "simulateS (snd (compileS (flagPattern True))) (fst (compileS (flagPattern True))) [1, 2] 0
     True False = (\<lparr>matched = True, matchLength = 1\<rparr>, False)"
  "simulateS (snd (compileS (flagPattern False))) (fst (compileS (flagPattern False))) [1, 2] 0
     False False = (\<lparr>matched = True, matchLength = 2\<rparr>, False)"
  "simulateS (snd (compileS (flagPattern False))) (fst (compileS (flagPattern False))) [1, 2] 0
     True False = (\<lparr>matched = True, matchLength = 2\<rparr>, False)"
  unfolding compileS_flagPattern by code_simp+

lemma heapAll_Nil [simp]: "heapAll P []"
  by (simp add: heapAll_def)

lemma heapAll_update:
  assumes "heapAll P H" "s < length H \<Longrightarrow> \<forall>tr\<in>set (transitions x). P (predicate tr)"
  shows "heapAll P (H[s := x])"
proof (cases "s < length H")
  case True
  then show ?thesis
    using assms set_update_subset_insert [of H s x] unfolding heapAll_def by blast
next
  case False
  then show ?thesis using assms(1) by (simp add: list_update_beyond not_less)
qed

lemma heapAll_nth:
  "heapAll P H \<Longrightarrow> s < length H \<Longrightarrow> \<forall>tr\<in>set (transitions (H ! s)). P (predicate tr)"
  unfolding heapAll_def using nth_mem [of s H] by blast

lemma createState_heapAll: "heapAll P H \<Longrightarrow> heapAll P (snd (createState H))"
  by (auto simp: heapAll_def createState_def)

lemma pushEpsilons_heapAll: "heapAll P H \<Longrightarrow> heapAll P (pushEpsilons s ts H)"
  unfolding pushEpsilons_def using heapAll_nth [of P H s]
  by (intro heapAll_update) simp_all

lemma setAnchorCheck_heapAll: "heapAll P H \<Longrightarrow> heapAll P (setAnchorCheck s chk H)"
  unfolding setAnchorCheck_def using heapAll_nth [of P H s]
  by (intro heapAll_update) simp_all

lemma pushTransition_heapAll:
  "heapAll P H \<Longrightarrow> P (predicate tr) \<Longrightarrow> heapAll P (pushTransition s tr H)"
  unfolding pushTransition_def using heapAll_nth [of P H s]
  by (intro heapAll_update) simp_all

lemma keepsD: "keeps P c \<Longrightarrow> heapAll P H \<Longrightarrow> heapAll P (snd (c H))"
  by (simp add: keeps_def)

lemma compilePredicate_keeps: "P fn \<Longrightarrow> keeps P (compilePredicate fn)"
  unfolding keeps_def compilePredicate_def Let_def split_beta
  by (simp add: pushTransition_heapAll createState_heapAll)

lemma compileAnchor_keeps: "keeps P (compileAnchor pos)"
  unfolding keeps_def compileAnchor_def Let_def split_beta
  by (simp add: pushEpsilons_heapAll setAnchorCheck_heapAll createState_heapAll)

lemma compileAlternation_keeps:
  "keeps P l \<Longrightarrow> keeps P r \<Longrightarrow> keeps P (compileAlternation l r)"
  unfolding keeps_def compileAlternation_def Let_def split_beta
  by (simp add: pushEpsilons_heapAll createState_heapAll)

lemma mandatoryCopies_keeps:
  "keeps P c \<Longrightarrow> heapAll P H \<Longrightarrow> heapAll P (snd (mandatoryCopies c k lastState H))"
  by (induction k arbitrary: lastState H)
     (simp_all add: Let_def split_beta pushEpsilons_heapAll keepsD)

lemma optionalCopies_keeps:
  "keeps P c \<Longrightarrow> heapAll P H \<Longrightarrow> heapAll P (snd (optionalCopies c k g ac lastState H))"
  by (induction k arbitrary: lastState H)
     (simp_all add: Let_def split_beta pushEpsilons_heapAll keepsD)

lemma compileQuantifier_keeps:
  assumes "keeps P c"
  shows "keeps P (compileQuantifier c mn mx g)"
  unfolding keeps_def
proof (intro allI impI)
  fix H :: "'a heap" assume "heapAll P H"
  then have m: "heapAll P (snd (mandatoryCopies c mn (fst (createState H))
                                  (snd (createState (snd (createState H))))))"
    by (intro mandatoryCopies_keeps assms createState_heapAll)
  show "heapAll P (snd (compileQuantifier c mn mx g H))"
  proof (cases mx)
    case (enat k)
    then show ?thesis
      using optionalCopies_keeps [OF assms m]
      by (simp add: compileQuantifier_def Let_def split_beta pushEpsilons_heapAll)
  next
    case infinity
    then show ?thesis
      using keepsD [OF assms m]
      by (simp add: compileQuantifier_def Let_def split_beta pushEpsilons_heapAll)
  qed
qed

lemma compileAll_keeps:
  "\<forall>c\<in>set cs. keeps P c \<Longrightarrow> heapAll P H \<Longrightarrow> heapAll P (snd (compileAll cs H))"
  by (induction cs arbitrary: H) (simp_all add: Let_def split_beta keepsD)

lemma linkFragments_heapAll: "heapAll P H \<Longrightarrow> heapAll P (linkFragments fs H)"
  by (induction fs H rule: linkFragments.induct) (simp_all add: pushEpsilons_heapAll)

lemma compileSequence_keeps:
  assumes "\<forall>c\<in>set cs. keeps P c"
  shows "keeps P (compileSequence cs)"
  unfolding keeps_def
proof (intro allI impI)
  fix H :: "'a heap" assume h: "heapAll P H"
  show "heapAll P (snd (compileSequence cs H))"
  proof (cases cs)
    case Nil
    then show ?thesis using h
      by (simp add: compileSequence_def Let_def split_beta pushEpsilons_heapAll createState_heapAll)
  next
    case (Cons c rest)
    show ?thesis
    proof (cases rest)
      case Nil
      then show ?thesis using Cons assms h by (simp add: compileSequence_def keepsD)
    next
      case inner: (Cons d more)
      have "heapAll P (linkFragments (fst (compileAll cs H)) (snd (compileAll cs H)))"
        by (intro linkFragments_heapAll compileAll_keeps assms h)
      then show ?thesis using Cons inner
        by (simp add: compileSequence_def Let_def split_beta del: compileAll.simps)
    qed
  qed
qed

lemma compileNodeS_keeps:
  "\<forall>p\<in>set_PatternNode t. P p \<Longrightarrow> P (\<lambda>element w. (True, w)) \<Longrightarrow> keeps P (compileNodeS t)"
  by (induction t)
     (simp_all add: compilePredicate_keeps compileAnchor_keeps compileAlternation_keeps
        compileQuantifier_keeps compileSequence_keeps)

lemma compileS_quiet:
  assumes "\<forall>p\<in>set_PatternNode t. quiet p"
  shows "heapAll quiet (snd (compileS t))"
proof -
  have "quiet (\<lambda>element w. (True, w))" by (simp add: quiet_def)
  then have "keeps quiet (compileNodeS t)" using assms by (intro compileNodeS_keeps)
  then show ?thesis unfolding compileS_def by (rule keepsD) simp
qed

lemma compileNodeS_sim_refl: "compSim (compileNodeS t) (compileNodeS t)"
proof (induction t)
  case (SequenceNode children)
  then have "list_all2 compSim (map compileNodeS children) (map compileNodeS children)"
    by (simp add: list_all2_map1 list_all2_map2 list_all2_same)
  then show ?case by (simp add: compileSequence_sim)
qed (simp_all add: compilePredicate_sim compileAnchor_sim compileAlternation_sim
       compileQuantifier_sim)

lemma compileNodeS_flipOne: "flipOne t1 t2 \<Longrightarrow> compSim (compileNodeS t1) (compileNodeS t2)"
proof (induction rule: flipOne.induct)
  case (inSequence child child' before after)
  have "list_all2 compSim (map compileNodeS before) (map compileNodeS before)"
    "list_all2 compSim (map compileNodeS after) (map compileNodeS after)"
    by (simp_all add: list_all2_map1 list_all2_map2 list_all2_same compileNodeS_sim_refl)
  then have "list_all2 compSim (map compileNodeS (before @ child # after))
                               (map compileNodeS (before @ child' # after))"
    using inSequence.IH by (auto intro!: list_all2_appendI)
  then show ?case by (simp add: compileSequence_sim del: map_append)
qed (simp_all add: compileQuantifier_sim compileNodeS_sim_refl compileAlternation_sim)

lemma compileS_flipOne:
  assumes "flipOne t1 t2"
  shows "fst (compileS t1) = fst (compileS t2)" "heapSim (snd (compileS t1)) (snd (compileS t2))"
  using compSimD [OF compileNodeS_flipOne [OF assms] heapSim_Nil]
  by (simp_all add: compileS_def)

lemma flipOne_predicates: "flipOne t1 t2 \<Longrightarrow> set_PatternNode t2 = set_PatternNode t1"
  by (induction rule: flipOne.induct) simp_all

lemma deref_purify: "deref (purify w H) r = purifyState w (deref H r)"
  by (simp add: deref_def purify_def purifyState_def)

lemma anchorFails_purify [simp]: "anchorFails (purify w H) s p n = anchorFails H s p n"
  by (simp add: anchorFails_def deref_purify purifyState_def)

lemma epsilonLoop_purify: "epsilonLoop (purify w H) p n res st = epsilonLoop H p n res st"
  by (induction res st rule: epsilonLoop_induct [where H = H and p = p and n = n])
     (simp_all add: epsilonLoop_snoc deref_purify purifyState_def)

lemma epsilonClosure_purify [simp]:
  "epsilonClosure (purify w H) seeds p n = epsilonClosure H seeds p n"
  by (simp add: epsilonClosure_def epsilonLoop_purify)

lemma heapAll_deref: "heapAll P H \<Longrightarrow> \<forall>tr\<in>set (transitions (deref H s)). P (predicate tr)"
  using heapAll_nth [of P H s] by (simp add: deref_def)

lemma nextStatesS_inner:
  assumes "\<forall>tr\<in>set trs. quiet (predicate tr)"
  shows "foldl (\<lambda>(next, w) transition.
                  let (ok, w1) = predicate transition x w in
                  (if ok then set_add next (target transition) else next, w1))
           (acc, w) trs =
         (foldl (\<lambda>next transition.
                   if predicate transition x then set_add next (target transition) else next)
            acc (map (\<lambda>tr. \<lparr>predicate = (\<lambda>x. fst (predicate tr x w)), target = target tr\<rparr>) trs),
          w)"
  using assms
proof (induction trs arbitrary: acc)
  case Nil
  show ?case by simp
next
  case (Cons tr trs)
  have "snd (predicate tr x w) = w" using Cons.prems by (simp add: quiet_def)
  then show ?case using Cons by (simp add: split_beta)
qed

lemma nextStatesS_outer:
  assumes "heapAll quiet H"
  shows "foldl (\<lambda>(next, w) state.
              foldl (\<lambda>(next, w) transition.
                       let (ok, w1) = predicate transition x w in
                       (if ok then set_add next (target transition) else next, w1))
                (next, w) (transitions (deref H state)))
           (acc, w) active =
         (foldl (\<lambda>next state.
              foldl (\<lambda>next transition.
                       if predicate transition x then set_add next (target transition)
                       else next)
                next (transitions (deref (purify w H) state)))
            acc active, w)"
proof (induction active arbitrary: acc)
  case Nil
  show ?case by simp
next
  case (Cons a active)
  show ?case
    using nextStatesS_inner [OF heapAll_deref [OF assms, of a], of x] Cons
    by (simp add: deref_purify purifyState_def)
qed

lemma nextStatesS_quiet:
  "heapAll quiet H \<Longrightarrow> nextStatesS H active x w = (nextStates (purify w H) active x, w)"
  unfolding nextStatesS_def nextStates_def by (rule nextStatesS_outer)

lemma simulateLoopS_unfold:
  "simulateLoopS H nfa sq off greedy i active l0 w =
     (if i < length sq then
        (if epsilonClosure H (fst (nextStatesS H active (sq ! i) w)) (Suc i) (enat (length sq)) = []
         then (l0, snd (nextStatesS H active (sq ! i) w))
         else if accept nfa \<in> set (epsilonClosure H (fst (nextStatesS H active (sq ! i) w)) (Suc i)
                                     (enat (length sq)))
         then (if greedy
               then simulateLoopS H nfa sq off greedy (Suc i)
                      (epsilonClosure H (fst (nextStatesS H active (sq ! i) w)) (Suc i)
                         (enat (length sq)))
                      (int i - int off + 1) (snd (nextStatesS H active (sq ! i) w))
               else (int i - int off + 1, snd (nextStatesS H active (sq ! i) w)))
         else simulateLoopS H nfa sq off greedy (Suc i)
                (epsilonClosure H (fst (nextStatesS H active (sq ! i) w)) (Suc i)
                   (enat (length sq)))
                l0 (snd (nextStatesS H active (sq ! i) w)))
      else (l0, w))"
  by (subst simulateLoopS.simps) (simp add: Let_def)

lemma simulateLoopS_quiet:
  assumes "heapAll quiet H"
  shows "simulateLoopS H nfa sq off greedy i active l0 w =
         (simulateLoop (purify w H) nfa sq off greedy i active l0, w)"
proof (induction "length sq - i" arbitrary: i active l0 greedy)
  case 0
  then show ?case
    by (subst simulateLoopS_unfold, subst simulateLoop_unfold) simp
next
  case (Suc k)
  then have k: "k = length sq - Suc i" and inside: "i < length sq" by simp_all
  note IH = Suc.hyps(1) [OF k]
  show ?case
    by (subst simulateLoopS_unfold, subst simulateLoop_unfold)
       (simp add: inside nextStatesS_quiet [OF assms] IH)
qed

lemma simulateS_quiet:
  assumes "heapAll quiet H"
  shows "simulateS H nfa sq off greedy w = (simulate (purify w H) nfa sq off greedy, w)"
  unfolding simulateS_def simulate_def Let_def simulateLoopS_quiet [OF assms]
    epsilonClosure_purify fst_conv snd_conv
  by simp

lemma heapSim_purify: "heapSim H1 H2 \<Longrightarrow> heapSim (purify w H1) (purify w H2)"
  unfolding heapSim_def purify_def list_all2_map1 list_all2_map2
  by (erule list_all2_mono) (simp add: stateSim_def purifyState_def)

lemma compileS_evenRunS:
  "compileS (evenRunS greedy) =
     (\<lparr>start = 0, accept = 1\<rparr>,
      [\<lparr>state_id = 0, epsilons = [2], transitions = [], anchorCheck = None\<rparr>,
       \<lparr>state_id = 1, epsilons = [], transitions = [], anchorCheck = None\<rparr>,
       \<lparr>state_id = 2, epsilons = [], transitions = [\<lparr>predicate = quietEven, target = 3\<rparr>],
         anchorCheck = None\<rparr>,
       \<lparr>state_id = 3, epsilons = (if greedy then [4, 1] else [1, 4]), transitions = [],
         anchorCheck = None\<rparr>,
       \<lparr>state_id = 4, epsilons = [], transitions = [\<lparr>predicate = quietEven, target = 5\<rparr>],
         anchorCheck = None\<rparr>,
       \<lparr>state_id = 5, epsilons = [3], transitions = [], anchorCheck = None\<rparr>])"
  by (simp add: evenRunS_def compileS_def compile_eval)

lemma simulateS_evenRunS:
  "simulateS (snd (compileS (evenRunS True))) (fst (compileS (evenRunS True))) [2, 4, 6, 3] 0
     True False = (\<lparr>matched = True, matchLength = 3\<rparr>, False)"
  "simulateS (snd (compileS (evenRunS False))) (fst (compileS (evenRunS False))) [2, 4, 6, 3] 0
     False False = (\<lparr>matched = True, matchLength = 1\<rparr>, False)"
  unfolding compileS_evenRunS by code_simp+

section \<open>Claim about greedy and lazy quantifiers\<close>

text \<open>
  Claim C4, as stated for every pattern tree, fails: predicates may mutate captured state,
  \<open>simulate\<close> calls them in the order of the active set, and the greedy flag changes that
  order.  With \<open>A\<close> setting a flag and \<open>B\<close> reading and clearing it, the pattern
  \<open>where(A).optional(greedy).followedBy(B)\<close> over \<open>[1, 2]\<close> at offset 0 matches with
  length 1 when the quantifier is greedy and with length 2 when it is lazy.
\<close>

theorem greedy_lazy_stateful_counterexample:
  "flipOne (flagPattern True) (flagPattern False) \<and>
   simulateS (snd (compileS (flagPattern True))) (fst (compileS (flagPattern True))) [1, 2] 0
     (isGreedy (flagPattern True)) False = (\<lparr>matched = True, matchLength = 1\<rparr>, False) \<and>
   simulateS (snd (compileS (flagPattern False))) (fst (compileS (flagPattern False))) [1, 2] 0
     (isGreedy (flagPattern False)) False = (\<lparr>matched = True, matchLength = 2\<rparr>, False)"
proof -
  have "flipOne (flagPattern True) (flagPattern False)"
    unfolding flagPattern_def
    using flipOne.inSequence [OF flipOne.chosen, of "[]" "PredicateNode setsFlag" 0 "enat 1"
        "[PredicateNode clearsFlag]"]
    by simp
  then show ?thesis by (simp add: simulateS_flagPattern)
qed

text \<open>
  Claim C4, amended.  For every pattern tree whose predicates leave the captured state as
  it was, every sequence and every offset: take the tree with one quantifier greedy and the
  same tree with only that flag cleared, compile both and run \<open>simulate\<close> at the offset from
  the same state.  If both attempts match, the length for the greedy tree is at least the
  length for the lazy one, whether \<open>simulate\<close> is given the flag derived from each tree (as
  the matcher does) or \<open>true\<close> for the greedy and \<open>false\<close> for the lazy tree; given the
  same flag, the two automata yield the same result.
\<close>

theorem greedy_at_least_lazy:
  assumes "flipOne treeG treeL" and "\<forall>p\<in>set_PatternNode treeG. quiet p"
  shows "(matched (fst (simulateS (snd (compileS treeG)) (fst (compileS treeG)) sq off
                          (isGreedy treeG) w)) \<and>
          matched (fst (simulateS (snd (compileS treeL)) (fst (compileS treeL)) sq off
                          (isGreedy treeL) w)) \<longrightarrow>
            matchLength (fst (simulateS (snd (compileS treeL)) (fst (compileS treeL)) sq off
                                (isGreedy treeL) w))
              \<le> matchLength (fst (simulateS (snd (compileS treeG)) (fst (compileS treeG)) sq off
                                    (isGreedy treeG) w))) \<and>
         (matched (fst (simulateS (snd (compileS treeG)) (fst (compileS treeG)) sq off True w)) \<and>
          matched (fst (simulateS (snd (compileS treeL)) (fst (compileS treeL)) sq off False w)) \<longrightarrow>
            matchLength (fst (simulateS (snd (compileS treeL)) (fst (compileS treeL)) sq off False w))
              \<le> matchLength (fst (simulateS (snd (compileS treeG)) (fst (compileS treeG)) sq off
                                    True w))) \<and>
         simulateS (snd (compileS treeL)) (fst (compileS treeL)) sq off greedy w =
           simulateS (snd (compileS treeG)) (fst (compileS treeG)) sq off greedy w"
proof -
  note c = compileS_flipOne [OF assms(1)]
  have qG: "heapAll quiet (snd (compileS treeG))"
    using assms(2) by (rule compileS_quiet)
  have qL: "heapAll quiet (snd (compileS treeL))"
    using assms(2) flipOne_predicates [OF assms(1)] by (intro compileS_quiet) simp
  have same: "simulateS (snd (compileS treeL)) (fst (compileS treeL)) sq off g w =
              simulateS (snd (compileS treeG)) (fst (compileS treeG)) sq off g w" for g
    unfolding simulateS_quiet [OF qG] simulateS_quiet [OF qL]
    using simulate_sim [OF heapSim_purify [OF c(2)], of w "fst (compileS treeG)" sq off g] c(1)
    by simp
  have lazy: "isGreedy treeL = False" using flipOne_not_greedy [OF assms(1)] by simp
  show ?thesis
    unfolding lazy same
    unfolding simulateS_quiet [OF qG] fst_conv
    using simulate_lazy_le [of "purify w (snd (compileS treeG))" "fst (compileS treeG)" sq off
        "isGreedy treeG"]
      simulate_lazy_le [of "purify w (snd (compileS treeG))" "fst (compileS treeG)" sq off True]
    by simp
qed

theorem greedy_at_least_lazy_witness:
  "flipOne (evenRunS True) (evenRunS False) \<and>
   set_PatternNode (evenRunS True) = {quietEven} \<and> quiet quietEven \<and>
   matched (fst (simulateS (snd (compileS (evenRunS True))) (fst (compileS (evenRunS True)))
     [2, 4, 6, 3] 0 (isGreedy (evenRunS True)) False)) \<and>
   matched (fst (simulateS (snd (compileS (evenRunS False))) (fst (compileS (evenRunS False)))
     [2, 4, 6, 3] 0 (isGreedy (evenRunS False)) False)) \<and>
   matchLength (fst (simulateS (snd (compileS (evenRunS False))) (fst (compileS (evenRunS False)))
     [2, 4, 6, 3] 0 (isGreedy (evenRunS False)) False)) = 1 \<and>
   matchLength (fst (simulateS (snd (compileS (evenRunS True))) (fst (compileS (evenRunS True)))
     [2, 4, 6, 3] 0 (isGreedy (evenRunS True)) False)) = 3"
proof -
  have f: "flipOne (evenRunS True) (evenRunS False)"
    unfolding evenRunS_def
    using flipOne.inSequence [OF flipOne.chosen, of "[]" "PredicateNode quietEven" 1 \<infinity> "[]"]
    by simp
  have q: "\<forall>p\<in>set_PatternNode (evenRunS True). quiet p"
    by (simp add: evenRunS_def quiet_def quietEven_def)
  have g: "isGreedy (evenRunS True) = True" "isGreedy (evenRunS False) = False"
    by (simp_all add: evenRunS_def)
  have e: "set_PatternNode (evenRunS True) = {quietEven}" "quiet quietEven"
    by (simp_all add: evenRunS_def quiet_def quietEven_def)
  show ?thesis
    using f e greedy_at_least_lazy [OF f q, of "[2, 4, 6, 3]" 0 False True]
    unfolding g simulateS_evenRunS by simp
qed

section \<open>Streaming scanner (scanner.ts)\<close>

text \<open>
  The mutable fields of the class are a record that every method takes and returns; the
  heap of states is passed beside it.  Positions are natural numbers: \<open>scannerInv\<close>
  below holds of a fresh scanner and after every \<open>push\<close>, so that
  \<open>position - buffer.length\<close> and \<open>scanStart - bufferStart\<close> are never negative and
  every read of the buffer is inside its bounds.
\<close>

record 'a Scanner =
  nfa :: NFA
  greedy :: bool
  position :: nat
  scanStart :: nat
  buffer :: "'a list"
  active :: "nat list"
  lastAcceptLength :: int
  simulationAlive :: bool

definition initSimulation :: "'a Predicate heap \<Rightarrow> 'a Scanner \<Rightarrow> nat \<Rightarrow> enat \<Rightarrow> 'a Scanner" where
  "initSimulation H sc startPos seqLength =
     (let active1 = epsilonClosure H [start (nfa sc)] startPos seqLength in
      sc\<lparr>active := active1,
         lastAcceptLength := (if accept (nfa sc) \<in> set active1 then 0 else - 1),
         simulationAlive := True\<rparr>)"

text \<open>The constructor: the field initialisers, then \<open>initSimulation(0, Infinity)\<close>.\<close>

definition newScanner :: "'a Predicate heap \<Rightarrow> NFA \<Rightarrow> bool \<Rightarrow> 'a Scanner" where
  "newScanner H n g =
     initSimulation H
       \<lparr>nfa = n, greedy = g, position = 0, scanStart = 0, buffer = [], active = [],
        lastAcceptLength = - 1, simulationAlive = False\<rparr> 0 \<infinity>"

definition step :: "'a Predicate heap \<Rightarrow> 'a Scanner \<Rightarrow> 'a \<Rightarrow> nat \<Rightarrow> enat \<Rightarrow> 'a Scanner" where
  "step H sc element absolutePosition seqLength =
     (let next = nextStates H (active sc) element;
          sc1 = sc\<lparr>active := epsilonClosure H next (absolutePosition + 1) seqLength\<rparr> in
      if active sc1 = [] then sc1\<lparr>simulationAlive := False\<rparr>
      else if accept (nfa sc1) \<in> set (active sc1) then
        (let sc2 = sc1\<lparr>lastAcceptLength := int absolutePosition - int (scanStart sc1) + 1\<rparr> in
         if \<not> greedy sc2 then sc2\<lparr>simulationAlive := False\<rparr> else sc2)
      else sc1)"

text \<open>\<open>emitMatch\<close> is called only with a positive \<open>lastAcceptLength\<close>.\<close>

definition emitMatch :: "'a Scanner \<Rightarrow> 'a MatchResult \<times> 'a Scanner" where
  "emitMatch sc =
     (let bufferStart = position sc - length (buffer sc);
          matchStart = scanStart sc;
          matchLen = nat (lastAcceptLength sc);
          dataStart = matchStart - bufferStart;
          result = \<lparr>start_idx = matchStart, end_idx = matchStart + matchLen - 1,
                    data = slice (buffer sc) dataStart (dataStart + matchLen)\<rparr>
      in (result, sc\<lparr>scanStart := matchStart + matchLen, lastAcceptLength := - 1,
                     simulationAlive := False\<rparr>))"

text \<open>
  \<open>if (this.lastAcceptLength > 0) results.push(this.emitMatch()) else this.scanStart++\<close>,
  as it stands in the loops of \<open>drain\<close> and \<open>end\<close>.
\<close>

definition emitOrSkip ::
  "'a Scanner \<Rightarrow> 'a MatchResult list \<Rightarrow> 'a Scanner \<times> 'a MatchResult list" where
  "emitOrSkip sc results =
     (if lastAcceptLength sc > 0
      then (let (r, sc1) = emitMatch sc in (sc1, results @ [r]))
      else (sc\<lparr>scanStart := scanStart sc + 1\<rparr>, results))"

lemma step_fields [simp]:
  "position (step H sc x i n) = position sc" "scanStart (step H sc x i n) = scanStart sc"
  "buffer (step H sc x i n) = buffer sc" "nfa (step H sc x i n) = nfa sc"
  "greedy (step H sc x i n) = greedy sc"
  by (simp_all add: step_def Let_def)

lemma initSimulation_fields [simp]:
  "position (initSimulation H sc p n) = position sc"
  "scanStart (initSimulation H sc p n) = scanStart sc"
  "buffer (initSimulation H sc p n) = buffer sc" "nfa (initSimulation H sc p n) = nfa sc"
  "greedy (initSimulation H sc p n) = greedy sc"
  by (simp_all add: initSimulation_def Let_def)

lemma emitOrSkip_fields [simp]:
  "position (fst (emitOrSkip sc rs)) = position sc"
  "buffer (fst (emitOrSkip sc rs)) = buffer sc" "nfa (fst (emitOrSkip sc rs)) = nfa sc"
  "greedy (fst (emitOrSkip sc rs)) = greedy sc"
  by (simp_all add: emitOrSkip_def emitMatch_def Let_def)

lemma emitOrSkip_advances: "scanStart sc < scanStart (fst (emitOrSkip sc rs))"
  by (simp add: emitOrSkip_def emitMatch_def Let_def)

text \<open>The replay loop of \<open>drain\<close>.\<close>

function replayLoop :: "'a Predicate heap \<Rightarrow> 'a Scanner \<Rightarrow> enat \<Rightarrow> nat \<Rightarrow> nat \<Rightarrow> 'a Scanner" where
  "replayLoop H sc seqLength bufferStart i =
     (if i < position sc then
        (if \<not> simulationAlive sc then sc
         else replayLoop H (step H sc (buffer sc ! (i - bufferStart)) i seqLength)
                seqLength bufferStart (i + 1))
      else sc)"
  by pat_completeness auto
termination replayLoop
  by (relation "measure (\<lambda>(H, sc, seqLength, bufferStart, i). position sc - i)") auto

declare replayLoop.simps [simp del]

lemma replayLoop_fields [simp]:
  "position (replayLoop H sc n b i) = position sc"
  "scanStart (replayLoop H sc n b i) = scanStart sc"
  "buffer (replayLoop H sc n b i) = buffer sc" "nfa (replayLoop H sc n b i) = nfa sc"
  "greedy (replayLoop H sc n b i) = greedy sc"
  by (induction H sc n b i rule: replayLoop.induct; subst replayLoop.simps; simp)+

text \<open>Starting a new simulation at \<open>scanStart\<close> and replaying the buffered elements.\<close>

definition restart :: "'a Predicate heap \<Rightarrow> 'a Scanner \<Rightarrow> enat \<Rightarrow> 'a Scanner" where
  "restart H sc seqLength =
     (let sc1 = initSimulation H sc (scanStart sc) seqLength;
          bufferStart = position sc1 - length (buffer sc1)
      in replayLoop H sc1 seqLength bufferStart (scanStart sc1))"

lemma restart_fields [simp]:
  "position (restart H sc n) = position sc" "scanStart (restart H sc n) = scanStart sc"
  "buffer (restart H sc n) = buffer sc" "nfa (restart H sc n) = nfa sc"
  "greedy (restart H sc n) = greedy sc"
  by (simp_all add: restart_def Let_def)

function drainLoop ::
  "'a Predicate heap \<Rightarrow> 'a Scanner \<Rightarrow> enat \<Rightarrow> 'a MatchResult list \<Rightarrow> 'a Scanner \<times> 'a MatchResult list" where
  "drainLoop H sc seqLength results =
     (if \<not> simulationAlive sc \<and> scanStart sc < position sc then
        (let sr = emitOrSkip sc results in
         if scanStart (fst sr) \<ge> position (fst sr) then sr
         else drainLoop H (restart H (fst sr) seqLength) seqLength (snd sr))
      else (sc, results))"
  by pat_completeness auto
termination drainLoop
proof (relation "measure (\<lambda>(H, sc, seqLength, results). position sc - scanStart sc)", goal_cases)
  case 1
  show ?case by simp
next
  case (2 H sc seqLength results sr)
  then show ?case using emitOrSkip_advances [of sc results] by simp
qed

declare drainLoop.simps [simp del]

definition drain :: "'a Predicate heap \<Rightarrow> 'a Scanner \<Rightarrow> enat \<Rightarrow> 'a Scanner \<times> 'a MatchResult list" where
  "drain H sc seqLength =
     (let (sc1, results) = drainLoop H sc seqLength [];
          sc2 = (if \<not> simulationAlive sc1 \<and> scanStart sc1 = position sc1
                 then initSimulation H sc1 (scanStart sc1) seqLength else sc1);
          consumed = scanStart sc2 - (position sc2 - length (buffer sc2));
          sc3 = (if consumed > 0 then sc2\<lparr>buffer := drop consumed (buffer sc2)\<rparr> else sc2)
      in (sc3, results))"

definition push :: "'a Predicate heap \<Rightarrow> 'a Scanner \<Rightarrow> 'a \<Rightarrow> 'a Scanner \<times> 'a MatchResult list" where
  "push H sc element =
     (let sc1 = sc\<lparr>buffer := buffer sc @ [element]\<rparr>;
          sc2 = (if simulationAlive sc1 then step H sc1 element (position sc1) \<infinity> else sc1);
          sc3 = sc2\<lparr>position := position sc2 + 1\<rparr>
      in drain H sc3 \<infinity>)"

text \<open>
  The end-anchor check of \<open>end\<close>: the closure of the active set at the final index with the
  true length.
\<close>

definition finalCheck :: "'a Predicate heap \<Rightarrow> 'a Scanner \<Rightarrow> nat \<Rightarrow> nat \<Rightarrow> 'a Scanner" where
  "finalCheck H sc index totalLength =
     (if simulationAlive sc \<and> active sc \<noteq> [] then
        (let finalActive = epsilonClosure H (active sc) index (enat totalLength) in
         if accept (nfa sc) \<in> set finalActive
         then sc\<lparr>lastAcceptLength := int index - int (scanStart sc)\<rparr> else sc)
      else sc)"

lemma finalCheck_fields [simp]:
  "position (finalCheck H sc i n) = position sc" "scanStart (finalCheck H sc i n) = scanStart sc"
  "buffer (finalCheck H sc i n) = buffer sc"
  by (simp_all add: finalCheck_def Let_def)

function endReplay :: "'a Predicate heap \<Rightarrow> 'a Scanner \<Rightarrow> nat \<Rightarrow> nat \<Rightarrow> nat \<Rightarrow> 'a Scanner" where
  "endReplay H sc totalLength bufferOffset i =
     (if i < totalLength then
        (let sc1 = step H sc (buffer sc ! (bufferOffset + (i - scanStart sc))) i (enat totalLength) in
         if \<not> simulationAlive sc1 then sc1
         else endReplay H sc1 totalLength bufferOffset (i + 1))
      else sc)"
  by pat_completeness auto
termination endReplay
  by (relation "measure (\<lambda>(H, sc, totalLength, bufferOffset, i). totalLength - i)") auto

declare endReplay.simps [simp del]

lemma endReplay_fields [simp]:
  "position (endReplay H sc n b i) = position sc" "scanStart (endReplay H sc n b i) = scanStart sc"
  "buffer (endReplay H sc n b i) = buffer sc"
  by (induction H sc n b i rule: endReplay.induct; subst endReplay.simps; simp add: Let_def)+

text \<open>One turn of the \<open>while\<close> loop of \<open>end\<close>, up to the final end-anchor check.\<close>

definition endAttempt :: "'a Predicate heap \<Rightarrow> 'a Scanner \<Rightarrow> nat \<Rightarrow> 'a Scanner" where
  "endAttempt H sc totalLength =
     (let sc1 = initSimulation H sc (scanStart sc) (enat totalLength);
          bufferOffset = scanStart sc1 - (position sc1 - length (buffer sc1));
          sc2 = endReplay H sc1 totalLength bufferOffset (scanStart sc1)
      in finalCheck H sc2 totalLength totalLength)"

lemma endAttempt_fields [simp]:
  "position (endAttempt H sc n) = position sc" "scanStart (endAttempt H sc n) = scanStart sc"
  "buffer (endAttempt H sc n) = buffer sc"
  by (simp_all add: endAttempt_def Let_def)

function endLoop ::
  "'a Predicate heap \<Rightarrow> 'a Scanner \<Rightarrow> nat \<Rightarrow> 'a MatchResult list \<Rightarrow> 'a Scanner \<times> 'a MatchResult list" where
  "endLoop H sc totalLength results =
     (if scanStart sc < totalLength then
        (let sr = emitOrSkip (endAttempt H sc totalLength) results in
         endLoop H (fst sr) totalLength (snd sr))
      else (sc, results))"
  by pat_completeness auto
termination endLoop
proof (relation "measure (\<lambda>(H, sc, totalLength, results). totalLength - scanStart sc)", goal_cases)
  case 1
  show ?case by simp
next
  case (2 H sc totalLength results sr)
  then show ?case using emitOrSkip_advances [of "endAttempt H sc totalLength" results] by simp
qed

declare endLoop.simps [simp del]

text \<open>The method \<open>end\<close>.\<close>

definition end_scan :: "'a Predicate heap \<Rightarrow> 'a Scanner \<Rightarrow> 'a Scanner \<times> 'a MatchResult list" where
  "end_scan H sc =
     (let totalLength = position sc;
          sc1 = finalCheck H sc (position sc) totalLength;
          (sc2, results) =
            (if lastAcceptLength sc1 > 0 then (let (r, sc') = emitMatch sc1 in (sc', [r]))
             else if scanStart sc1 < totalLength
             then (sc1\<lparr>scanStart := scanStart sc1 + 1\<rparr>, [])
             else (sc1, []))
      in endLoop H sc2 totalLength results)"

text \<open>
  Feeding a sequence to a fresh scanner (\<open>collectAll\<close> of the tests, and
  \<open>Matcher.findAll\<close> on a source that is not an array): the results of every \<open>push\<close>,
  then those of \<open>end\<close>.
\<close>

fun pushAll ::
  "'a Predicate heap \<Rightarrow> 'a Scanner \<Rightarrow> 'a list \<Rightarrow> 'a MatchResult list list \<Rightarrow>
   'a Scanner \<times> 'a MatchResult list list" where
  "pushAll H sc [] outs = (sc, outs)"
| "pushAll H sc (element # rest) outs =
     (let (sc1, out) = push H sc element in pushAll H sc1 rest (outs @ [out]))"

definition collectAll :: "'a Predicate heap \<Rightarrow> NFA \<Rightarrow> bool \<Rightarrow> 'a list \<Rightarrow> 'a MatchResult list" where
  "collectAll H n g sequence =
     (let (sc, outs) = pushAll H (newScanner H n g) sequence []
      in concat outs @ snd (end_scan H sc))"

text \<open>
  The index invariant of the scanner: the buffer holds the elements from
  \<open>position - buffer.length\<close> on, the open attempt starts inside it, and a recorded
  length never reaches beyond the elements seen.
\<close>

definition scannerInv :: "'a Scanner \<Rightarrow> bool" where
  "scannerInv sc \<longleftrightarrow>
     length (buffer sc) \<le> position sc \<and>
     position sc - length (buffer sc) \<le> scanStart sc \<and>
     scanStart sc \<le> position sc \<and>
     lastAcceptLength sc \<le> int (position sc) - int (scanStart sc)"

text \<open>
  The heap with every anchor guard evaluated as if the total length were \<open>Infinity\<close>: a
  start guard is unchanged, an end guard becomes constantly false.  And the property of a
  scanner that each of its active states passes its guard at some index under the
  unbounded length.
\<close>

definition sentinelGuards :: "'a heap \<Rightarrow> 'a heap" where
  "sentinelGuards H =
     map (\<lambda>s. s\<lparr>anchorCheck := map_option (\<lambda>chk index len. chk index \<infinity>) (anchorCheck s)\<rparr>) H"

definition passesAtInfinity :: "'a Predicate heap \<Rightarrow> 'a Scanner \<Rightarrow> bool" where
  "passesAtInfinity H sc \<longleftrightarrow> (\<forall>q\<in>set (active sc). \<exists>p. \<not> anchorFails H q p \<infinity>)"

text \<open>
  The patterns \<open>Pattern.where(isEven).atEnd()\<close> (scenario C of the specification) and
  \<open>Pattern.where(isEven).zeroOrMore(false)\<close>, as the trees the builder produces.
\<close>

definition evenAtEnd :: "int Predicate PatternNode" where
  "evenAtEnd = SequenceNode [PredicateNode isEven, AnchorNode AtEnd]"

definition lazyEvens :: "int Predicate PatternNode" where
  "lazyEvens = SequenceNode [QuantifierNode (PredicateNode isEven) 0 \<infinity> False]"

lemma compile_evenAtEnd:
  "compile evenAtEnd =
     (\<lparr>start = 0, accept = 3\<rparr>,
      [\<lparr>state_id = 0, epsilons = [], transitions = [\<lparr>predicate = isEven, target = 1\<rparr>],
         anchorCheck = None\<rparr>,
       \<lparr>state_id = 1, epsilons = [2], transitions = [], anchorCheck = None\<rparr>,
       \<lparr>state_id = 2, epsilons = [3], transitions = [], anchorCheck = Some endAnchorCheck\<rparr>,
       \<lparr>state_id = 3, epsilons = [], transitions = [], anchorCheck = None\<rparr>])"
  by (simp add: evenAtEnd_def compile_eval)

lemma compile_lazyEvens:
  "compile lazyEvens =
     (\<lparr>start = 0, accept = 1\<rparr>,
      [\<lparr>state_id = 0, epsilons = [1, 2], transitions = [], anchorCheck = None\<rparr>,
       \<lparr>state_id = 1, epsilons = [], transitions = [], anchorCheck = None\<rparr>,
       \<lparr>state_id = 2, epsilons = [], transitions = [\<lparr>predicate = isEven, target = 3\<rparr>],
         anchorCheck = None\<rparr>,
       \<lparr>state_id = 3, epsilons = [0], transitions = [], anchorCheck = None\<rparr>])"
  by (simp add: lazyEvens_def compile_eval)

section \<open>Properties of the scanner\<close>

lemma deref_sentinelGuards:
  "deref (sentinelGuards H) r =
     (deref H r)\<lparr>anchorCheck := map_option (\<lambda>chk index len. chk index \<infinity>) (anchorCheck (deref H r))\<rparr>"
  by (simp add: deref_def sentinelGuards_def)

lemma anchorFails_sentinelGuards [simp]:
  "anchorFails (sentinelGuards H) s p \<infinity> = anchorFails H s p \<infinity>"
  by (simp add: anchorFails_def deref_sentinelGuards split: option.splits)

lemma epsilonLoop_sentinelGuards:
  "epsilonLoop (sentinelGuards H) p \<infinity> res st = epsilonLoop H p \<infinity> res st"
  by (induction res st rule: epsilonLoop_induct [where H = H and p = p and n = \<infinity>])
     (simp_all add: epsilonLoop_snoc deref_sentinelGuards)

lemma epsilonClosure_sentinelGuards [simp]:
  "epsilonClosure (sentinelGuards H) seeds p \<infinity> = epsilonClosure H seeds p \<infinity>"
  by (simp add: epsilonClosure_def epsilonLoop_sentinelGuards)

lemma nextStates_sentinelGuards [simp]:
  "nextStates (sentinelGuards H) a x = nextStates H a x"
  by (simp add: nextStates_def deref_sentinelGuards)

lemma step_sentinelGuards [simp]: "step (sentinelGuards H) sc x i \<infinity> = step H sc x i \<infinity>"
  by (simp add: step_def)

lemma initSimulation_sentinelGuards [simp]:
  "initSimulation (sentinelGuards H) sc p \<infinity> = initSimulation H sc p \<infinity>"
  by (simp add: initSimulation_def)

lemma replayLoop_sentinelGuards [simp]:
  "replayLoop (sentinelGuards H) sc \<infinity> b i = replayLoop H sc \<infinity> b i"
proof (induction H sc "\<infinity> :: enat" b i rule: replayLoop.induct)
  case (1 H sc b i)
  show ?case
    using 1 by (subst replayLoop.simps, subst (2) replayLoop.simps) simp
qed

lemma restart_sentinelGuards [simp]: "restart (sentinelGuards H) sc \<infinity> = restart H sc \<infinity>"
  by (simp add: restart_def)

lemma drainLoop_sentinelGuards [simp]:
  "drainLoop (sentinelGuards H) sc \<infinity> rs = drainLoop H sc \<infinity> rs"
proof (induction H sc "\<infinity> :: enat" rs rule: drainLoop.induct)
  case (1 H sc rs)
  show ?case
    using 1 by (subst drainLoop.simps, subst (2) drainLoop.simps) (simp add: Let_def)
qed

lemma drain_sentinelGuards: "drain (sentinelGuards H) sc \<infinity> = drain H sc \<infinity>"
  unfolding drain_def drainLoop_sentinelGuards initSimulation_sentinelGuards by (rule refl)

lemma push_sentinelGuards: "push (sentinelGuards H) sc x = push H sc x"
  unfolding push_def step_sentinelGuards drain_sentinelGuards by (rule refl)

lemma newScanner_sentinelGuards: "newScanner (sentinelGuards H) n g = newScanner H n g"
  by (simp add: newScanner_def)

lemma pushAll_sentinelGuards: "pushAll (sentinelGuards H) sc xs outs = pushAll H sc xs outs"
  by (induction xs arbitrary: sc outs) (simp_all add: push_sentinelGuards)

lemma closure_passes:
  "q \<in> set (epsilonClosure H seeds p n) \<Longrightarrow> \<not> anchorFails H q p n"
  unfolding epsilonClosure_reachable by (rule reachable_passes)

lemma step_passes: "passesAtInfinity H (step H sc x i \<infinity>)"
  unfolding passesAtInfinity_def step_def Let_def
  by (auto dest: closure_passes)

lemma initSimulation_passes: "passesAtInfinity H (initSimulation H sc p \<infinity>)"
  unfolding passesAtInfinity_def initSimulation_def Let_def
  by (auto dest: closure_passes)

lemma replayLoop_passes:
  "passesAtInfinity H sc \<Longrightarrow> passesAtInfinity H (replayLoop H sc \<infinity> b i)"
proof (induction H sc "\<infinity> :: enat" b i rule: replayLoop.induct)
  case (1 H sc b i)
  show ?case
    using 1 step_passes [of H sc "buffer sc ! (i - b)" i] by (subst replayLoop.simps) simp
qed

lemma restart_passes: "passesAtInfinity H (restart H sc \<infinity>)"
  by (simp add: restart_def Let_def replayLoop_passes initSimulation_passes)

lemma emitOrSkip_passes:
  "passesAtInfinity H sc \<Longrightarrow> passesAtInfinity H (fst (emitOrSkip sc rs))"
  by (simp add: passesAtInfinity_def emitOrSkip_def emitMatch_def Let_def)

lemma drainLoop_passes:
  "passesAtInfinity H sc \<Longrightarrow> passesAtInfinity H (fst (drainLoop H sc \<infinity> rs))"
proof (induction H sc "\<infinity> :: enat" rs rule: drainLoop.induct)
  case (1 H sc rs)
  show ?case
    using 1 restart_passes [of H "fst (emitOrSkip sc rs)"] emitOrSkip_passes [OF 1(2), of rs]
    by (subst drainLoop.simps) (simp add: Let_def)
qed

lemma passesAtInfinity_updates [simp]:
  "passesAtInfinity H (sc\<lparr>buffer := b\<rparr>) = passesAtInfinity H sc"
  "passesAtInfinity H (sc\<lparr>position := k\<rparr>) = passesAtInfinity H sc"
  by (simp_all add: passesAtInfinity_def)

lemma drain_passes:
  assumes "passesAtInfinity H sc"
  shows "passesAtInfinity H (fst (drain H sc \<infinity>))"
proof -
  obtain sc1 rs where d: "drainLoop H sc \<infinity> [] = (sc1, rs)" by force
  have p1: "passesAtInfinity H sc1"
    using drainLoop_passes [OF assms, of "[]"] d by simp
  define sc2 where "sc2 = (if \<not> simulationAlive sc1 \<and> scanStart sc1 = position sc1
                 then initSimulation H sc1 (scanStart sc1) \<infinity> else sc1)"
  have p2: "passesAtInfinity H sc2"
    unfolding sc2_def using p1 by (simp add: initSimulation_passes)
  have "fst (drain H sc \<infinity>) =
        (if scanStart sc2 - (position sc2 - length (buffer sc2)) > 0
         then sc2\<lparr>buffer := drop (scanStart sc2 - (position sc2 - length (buffer sc2))) (buffer sc2)\<rparr>
         else sc2)"
    unfolding drain_def d sc2_def Let_def by simp
  then show ?thesis using p2 by simp
qed

lemma push_passes:
  assumes "passesAtInfinity H sc"
  shows "passesAtInfinity H (fst (push H sc x))"
proof -
  define sc1 where "sc1 = sc\<lparr>buffer := buffer sc @ [x]\<rparr>"
  define sc2 where "sc2 = (if simulationAlive sc1 then step H sc1 x (position sc1) \<infinity> else sc1)"
  have "passesAtInfinity H sc1" using assms by (simp add: sc1_def)
  then have "passesAtInfinity H sc2"
    unfolding sc2_def using step_passes [of H sc1 x "position sc1"] by simp
  then have "passesAtInfinity H (sc2\<lparr>position := position sc2 + 1\<rparr>)" by simp
  then have "passesAtInfinity H (fst (drain H (sc2\<lparr>position := position sc2 + 1\<rparr>) \<infinity>))"
    by (rule drain_passes)
  then show ?thesis unfolding push_def Let_def sc2_def sc1_def .
qed

lemma pushAll_passes:
  "passesAtInfinity H sc \<Longrightarrow> passesAtInfinity H (fst (pushAll H sc xs outs))"
proof (induction xs arbitrary: sc outs)
  case Nil
  then show ?case by simp
next
  case (Cons x xs)
  from Cons.IH [OF push_passes [OF Cons.prems, of x]] show ?case
    by (simp add: split_beta)
qed

lemma newScanner_passes: "passesAtInfinity H (newScanner H n g)"
  unfolding newScanner_def by (rule initSimulation_passes)

lemma endAnchor_fails: "anchorCheck (deref H q) = Some endAnchorCheck \<Longrightarrow> anchorFails H q p \<infinity>"
  by (simp add: anchorFails_def endAnchorCheck_def)

lemma scenario_pushes:
  "snd (pushAll (snd (compile evenAtEnd))
          (newScanner (snd (compile evenAtEnd)) (fst (compile evenAtEnd)) (isGreedy evenAtEnd))
          [1, 3, 4] []) = [[], [], []]"
  unfolding compile_evenAtEnd by code_simp

lemma scenario_end:
  "snd (end_scan (snd (compile evenAtEnd))
     (fst (pushAll (snd (compile evenAtEnd))
          (newScanner (snd (compile evenAtEnd)) (fst (compile evenAtEnd)) (isGreedy evenAtEnd))
          [1, 3, 4] []))) = [\<lparr>start_idx = 2, end_idx = 2, data = [4]\<rparr>]"
  unfolding compile_evenAtEnd by code_simp

lemma lazy_div:
  "collectAll (snd (compile lazyEvens)) (fst (compile lazyEvens)) (isGreedy lazyEvens) [2] =
     [\<lparr>start_idx = 0, end_idx = 0, data = [2]\<rparr>]"
  "findAll (snd (compile lazyEvens)) (fst (compile lazyEvens)) [2] (isGreedy lazyEvens) = []"
  unfolding compile_lazyEvens by code_simp+

lemma scenario_active:
  "active (fst (pushAll (snd (compile evenAtEnd))
          (newScanner (snd (compile evenAtEnd)) (fst (compile evenAtEnd)) (isGreedy evenAtEnd))
          [1, 3, 4] [])) = [1]"
  unfolding compile_evenAtEnd by code_simp

text \<open>
  The scanner agrees with \<open>findAll\<close> on the greedy run of even numbers over the input of
  the test \<open>oneOrMore quantifier\<close>.
\<close>

lemma collectAll_evenRun:
  "collectAll (snd (compile (evenRun True))) (fst (compile (evenRun True)))
     (isGreedy (evenRun True)) [2, 4, 1, 6, 8, 3] =
   findAll (snd (compile (evenRun True))) (fst (compile (evenRun True))) [2, 4, 1, 6, 8, 3]
     (isGreedy (evenRun True))"
  unfolding compile_evenRun by code_simp

lemma initSimulation_last:
  "lastAcceptLength (initSimulation H sc p n) \<le> 0"
  by (simp add: initSimulation_def Let_def)

lemma step_last:
  "lastAcceptLength (step H sc x i n) = lastAcceptLength sc \<or>
   lastAcceptLength (step H sc x i n) = int i - int (scanStart sc) + 1"
  by (simp add: step_def Let_def)

lemma replayLoop_last:
  "scanStart sc \<le> i \<Longrightarrow> lastAcceptLength sc \<le> int (position sc) - int (scanStart sc) \<Longrightarrow>
   lastAcceptLength (replayLoop H sc n b i) \<le> int (position sc) - int (scanStart sc)"
proof (induction H sc n b i rule: replayLoop.induct)
  case (1 H sc n b i)
  show ?case
  proof (cases "i < position sc \<and> simulationAlive sc")
    case False
    then show ?thesis using "1.prems" by (subst replayLoop.simps) auto
  next
    case True
    let ?sc = "step H sc (buffer sc ! (i - b)) i n"
    have "lastAcceptLength ?sc \<le> int (position ?sc) - int (scanStart ?sc)"
      using step_last [of H sc "buffer sc ! (i - b)" i n] "1.prems" True by auto
    then have "lastAcceptLength (replayLoop H ?sc n b (i + 1)) \<le>
               int (position ?sc) - int (scanStart ?sc)"
      using "1.IH" True "1.prems" by simp
    then show ?thesis using True by (subst replayLoop.simps) simp
  qed
qed

lemma restart_inv:
  assumes "scannerInv sc"
  shows "scannerInv (restart H sc n)"
proof -
  have "lastAcceptLength (restart H sc n) \<le> int (position sc) - int (scanStart sc)"
    unfolding restart_def Let_def
    using replayLoop_last [of "initSimulation H sc (scanStart sc) n" "scanStart sc" H n]
      initSimulation_last [of H sc "scanStart sc" n] assms
    by (simp add: scannerInv_def)
  then show ?thesis using assms by (simp add: scannerInv_def)
qed

lemma emitOrSkip_inv:
  assumes "scannerInv sc" "scanStart sc < position sc"
  shows "scannerInv (fst (emitOrSkip sc rs))"
  using assms by (auto simp: scannerInv_def emitOrSkip_def emitMatch_def Let_def)

lemma drainLoop_inv:
  "scannerInv sc \<Longrightarrow> scannerInv (fst (drainLoop H sc n rs))"
proof (induction H sc n rs rule: drainLoop.induct)
  case (1 H sc n rs)
  show ?case
  proof (cases "\<not> simulationAlive sc \<and> scanStart sc < position sc")
    case False
    then show ?thesis using "1.prems" by (subst drainLoop.simps) auto
  next
    case True
    note e = emitOrSkip_inv [OF "1.prems" conjunct2 [OF True], of rs]
    show ?thesis
    proof (cases "scanStart (fst (emitOrSkip sc rs)) \<ge> position (fst (emitOrSkip sc rs))")
      case stop: True
      then show ?thesis using True e by (subst drainLoop.simps) (simp add: Let_def)
    next
      case False
      have "scannerInv (fst (drainLoop H (restart H (fst (emitOrSkip sc rs)) n) n
                               (snd (emitOrSkip sc rs))))"
        using "1.IH" [OF True refl False] restart_inv [OF e] by simp
      then show ?thesis using True False by (subst drainLoop.simps) (simp add: Let_def)
    qed
  qed
qed

lemma drain_inv:
  assumes "scannerInv sc"
  shows "scannerInv (fst (drain H sc n))"
proof -
  obtain sc1 rs where d: "drainLoop H sc n [] = (sc1, rs)" by force
  have p1: "scannerInv sc1" using drainLoop_inv [OF assms, of H n "[]"] d by simp
  define sc2 where "sc2 = (if \<not> simulationAlive sc1 \<and> scanStart sc1 = position sc1
                 then initSimulation H sc1 (scanStart sc1) n else sc1)"
  have p2: "scannerInv sc2"
    unfolding sc2_def using p1 by (simp add: scannerInv_def initSimulation_last)
  have "fst (drain H sc n) =
        (if scanStart sc2 - (position sc2 - length (buffer sc2)) > 0
         then sc2\<lparr>buffer := drop (scanStart sc2 - (position sc2 - length (buffer sc2))) (buffer sc2)\<rparr>
         else sc2)"
    unfolding drain_def d sc2_def Let_def by simp
  then show ?thesis using p2 by (auto simp: scannerInv_def)
qed

lemma push_inv:
  assumes "scannerInv sc"
  shows "scannerInv (fst (push H sc x))"
proof -
  define sc1 where "sc1 = sc\<lparr>buffer := buffer sc @ [x]\<rparr>"
  define sc2 where "sc2 = (if simulationAlive sc1 then step H sc1 x (position sc1) \<infinity> else sc1)"
  have "lastAcceptLength sc2 = lastAcceptLength sc \<or>
        lastAcceptLength sc2 = int (position sc) - int (scanStart sc) + 1"
    unfolding sc2_def using step_last [of H sc1 x "position sc1" \<infinity>] by (simp add: sc1_def)
  moreover have "position sc2 = position sc" "scanStart sc2 = scanStart sc"
    "buffer sc2 = buffer sc @ [x]"
    by (simp_all add: sc2_def sc1_def)
  ultimately have "scannerInv (sc2\<lparr>position := position sc2 + 1\<rparr>)"
    using assms by (auto simp: scannerInv_def)
  then have "scannerInv (fst (drain H (sc2\<lparr>position := position sc2 + 1\<rparr>) \<infinity>))"
    by (rule drain_inv)
  then show ?thesis unfolding push_def Let_def sc2_def sc1_def .
qed

lemma newScanner_inv: "scannerInv (newScanner H n g)"
  using initSimulation_last [of H _ 0 \<infinity>] by (simp add: newScanner_def scannerInv_def)

lemma pushAll_inv: "scannerInv sc \<Longrightarrow> scannerInv (fst (pushAll H sc xs outs))"
proof (induction xs arbitrary: sc outs)
  case Nil
  then show ?case by simp
next
  case (Cons x xs)
  from Cons.IH [OF push_inv [OF Cons.prems, of H x]] show ?case by (simp add: split_beta)
qed

lemma scannerInv_reads:
  assumes "scannerInv sc" "scanStart sc \<le> i" "i < position sc"
  shows "position sc - length (buffer sc) \<le> i"
    and "i - (position sc - length (buffer sc)) < length (buffer sc)"
    and "scanStart sc - (position sc - length (buffer sc)) + (i - scanStart sc) < length (buffer sc)"
  using assms by (auto simp: scannerInv_def)

section \<open>Claims about the scanner\<close>

text \<open>
  Claim C9.  The end guard is false at every index under the unbounded length, and
  \<open>push\<close> computes every closure under it.  So the results of \<open>push\<close> are those of the
  automaton whose end anchors can never be passed (no emitted match relies on one), and
  after any number of pushes to a fresh scanner no state that carries the end guard is
  active.  For the pattern "even, anchored at the end" over \<open>[1, 3, 4]\<close> every \<open>push\<close>
  returns the empty list and \<open>end\<close> returns exactly the match of \<open>4\<close> at index 2.
\<close>

theorem push_defers_end_anchor:
  "(\<forall>index. \<not> endAnchorCheck index \<infinity>) \<and>
   push (sentinelGuards H) sc element = push H sc element \<and>
   pushAll (sentinelGuards H) (newScanner (sentinelGuards H) n g) elements [] =
     pushAll H (newScanner H n g) elements [] \<and>
   (\<forall>q\<in>set (active (fst (pushAll H (newScanner H n g) elements []))).
      anchorCheck (deref H q) \<noteq> Some endAnchorCheck) \<and>
   snd (pushAll (snd (compile evenAtEnd))
          (newScanner (snd (compile evenAtEnd)) (fst (compile evenAtEnd)) (isGreedy evenAtEnd))
          [1, 3, 4] []) = [[], [], []] \<and>
   snd (end_scan (snd (compile evenAtEnd))
     (fst (pushAll (snd (compile evenAtEnd))
          (newScanner (snd (compile evenAtEnd)) (fst (compile evenAtEnd)) (isGreedy evenAtEnd))
          [1, 3, 4] []))) = [\<lparr>start_idx = 2, end_idx = 2, data = [4]\<rparr>]"
proof -
  have "passesAtInfinity H (fst (pushAll H (newScanner H n g) elements []))"
    by (rule pushAll_passes [OF newScanner_passes])
  then have "\<forall>q\<in>set (active (fst (pushAll H (newScanner H n g) elements []))).
      anchorCheck (deref H q) \<noteq> Some endAnchorCheck"
    unfolding passesAtInfinity_def using endAnchor_fails [of H] by blast
  then show ?thesis
    using scenario_pushes scenario_end
    by (intro conjI)
       (simp_all only: endAnchorCheck_def push_sentinelGuards pushAll_sentinelGuards
          newScanner_sentinelGuards enat.distinct not_False_eq_True simp_thms)
qed

theorem push_defers_end_anchor_witness:
  "1 \<in> set (active (fst (pushAll (snd (compile evenAtEnd))
          (newScanner (snd (compile evenAtEnd)) (fst (compile evenAtEnd)) (isGreedy evenAtEnd))
          [1, 3, 4] []))) \<and>
   anchorCheck (deref (snd (compile evenAtEnd)) 1) \<noteq> Some endAnchorCheck \<and>
   anchorCheck (deref (snd (compile evenAtEnd)) 2) = Some endAnchorCheck"
proof -
  note all = push_defers_end_anchor [of "snd (compile evenAtEnd)" _ _ "fst (compile evenAtEnd)"
      "isGreedy evenAtEnd" "[1, 3, 4]",
      THEN conjunct2, THEN conjunct2, THEN conjunct2, THEN conjunct1, unfolded scenario_active]
  then have "anchorCheck (deref (snd (compile evenAtEnd)) 1) \<noteq> Some endAnchorCheck" by simp
  then show ?thesis
    unfolding scenario_active by (simp add: compile_evenAtEnd deref_def)
qed

text \<open>
  Claim C1 does not hold for the code.  For the lazy pattern
  \<open>Pattern.where(isEven).zeroOrMore(false)\<close> over \<open>[2]\<close> the scanner emits the match
  of \<open>2\<close>, while \<open>findAll\<close> returns nothing: in lazy mode \<open>simulate\<close> returns at once
  with length 0 when the accept state is in the initial closure, and the scanner has no
  such return and goes on to the first step.
\<close>

theorem scanner_lazy_zero_length_divergence:
  "collectAll (snd (compile lazyEvens)) (fst (compile lazyEvens)) (isGreedy lazyEvens) [2] =
     [\<lparr>start_idx = 0, end_idx = 0, data = [2]\<rparr>] \<and>
   findAll (snd (compile lazyEvens)) (fst (compile lazyEvens)) [2] (isGreedy lazyEvens) = []"
  by (simp add: lazy_div)

end
